theory Spec2Isabelle
  imports Main "HOL-Library.Multiset" "HOL-Library.Char_ord" "HOL-Library.List_Lexorder"
    "HOL-Library.Sublist" "HOL-Library.Monad_Syntax"
begin

section \<open>C strings and line input\<close>

text \<open>
  A pipe or a file is the list of the bytes still to be read from it. A buffer filled by
  \<^verbatim>\<open>fgets\<close> is the list of the bytes stored before the terminating NUL; the C string
  functions see such a buffer up to its first NUL byte only.
\<close>

definition NUL :: char where
  "NUL = CHR 0x00"

definition newline :: char where
  "newline = CHR 0x0A"

definition MAX_LINE :: nat where
  "MAX_LINE = 4096"

definition byte :: "char \<Rightarrow> int" where
  "byte c = int (of_char c)"

definition c_str :: "string \<Rightarrow> string" where
  "c_str buf = takeWhile (\<lambda>c. c \<noteq> NUL) buf"

definition strlen :: "string \<Rightarrow> nat" where
  "strlen buf = length (c_str buf)"

text \<open>
  \<^verbatim>\<open>strcmp\<close>: the difference of the first pair of bytes that differ, read as unsigned
  char; the end of a list is the terminating NUL.
\<close>

fun strcmp :: "string \<Rightarrow> string \<Rightarrow> int" where
  "strcmp [] [] = 0"
| "strcmp [] (b # bs) = 0 - byte b"
| "strcmp (a # as) [] = byte a"
| "strcmp (a # as) (b # bs) =
     (if a \<noteq> b then byte a - byte b else if a = NUL then 0 else strcmp as bs)"

text \<open>
  \<^verbatim>\<open>fgets(buf, size, fp)\<close> stores at most \<open>size - 1\<close> bytes, stopping after a newline;
  it returns a null pointer when no byte could be read.
\<close>

fun take_line :: "nat \<Rightarrow> string \<Rightarrow> string \<times> string" where
  "take_line n [] = ([], [])"
| "take_line n (c # s) =
     (if n = 0 then ([], c # s)
      else if c = newline then ([c], s)
      else (case take_line (n - 1) s of (l, r) \<Rightarrow> (c # l, r)))"

definition fgets :: "nat \<Rightarrow> string \<Rightarrow> (string \<times> string) option" where
  "fgets sz s = (if s = [] then None else Some (take_line (sz - 1) s))"

lemma take_line_append: "take_line n s = (l, r) \<Longrightarrow> l @ r = s"
  by (induction s arbitrary: n l r) (auto split: if_splits prod.splits)

lemma take_line_shorter: "0 < n \<Longrightarrow> s \<noteq> [] \<Longrightarrow> length (snd (take_line n s)) < length s"
proof (induction s arbitrary: n)
  case Nil
  then show ?case by simp
next
  case (Cons c s)
  show ?case
  proof (cases "c = newline")
    case True
    with Cons.prems show ?thesis by simp
  next
    case False
    obtain l r where lr: "take_line (n - 1) s = (l, r)"
      by (cases "take_line (n - 1) s")
    from take_line_append [OF lr] have "length r \<le> length s"
      by (metis length_append le_add2)
    with Cons.prems False lr show ?thesis by simp
  qed
qed

lemma fgets_shorter: "fgets MAX_LINE s = Some (l, r) \<Longrightarrow> length r < length s"
  using take_line_shorter [of "MAX_LINE - 1" s]
  by (auto simp: fgets_def MAX_LINE_def split: if_splits)

text \<open>All the lines of a stream, as a loop of \<^verbatim>\<open>fgets\<close> calls up to end of file reads them.\<close>

function fgets_all :: "string \<Rightarrow> string list" where
  "fgets_all s =
     (case fgets MAX_LINE s of None \<Rightarrow> [] | Some (l, r) \<Rightarrow> l # fgets_all r)"
  by pat_completeness auto
termination
  by (relation "measure length") (auto simp: fgets_shorter)

declare fgets_all.simps [simp del]

lemma byte_NUL [simp]: "byte NUL = 0"
  by (simp add: byte_def NUL_def)

lemma byte_eq_iff: "byte a = byte b \<longleftrightarrow> a = b"
  by (simp add: byte_def)

lemma byte_eq_0_iff [simp]: "byte c = 0 \<longleftrightarrow> c = NUL"
  using byte_eq_iff [of c NUL] by simp

lemma byte_nonneg [simp]: "0 \<le> byte c"
  by (simp add: byte_def)

lemma byte_less_iff: "byte a < byte b \<longleftrightarrow> a < b"
  by (simp add: byte_def less_char_def)

lemma c_str_Nil [simp]: "c_str [] = []"
  by (simp add: c_str_def)

lemma c_str_Cons: "c_str (c # s) = (if c = NUL then [] else c # c_str s)"
  by (simp add: c_str_def)

lemma c_str_no_NUL [simp]: "NUL \<notin> set (c_str s)"
  unfolding c_str_def by (induction s) auto

lemma c_str_id: "NUL \<notin> set s \<Longrightarrow> c_str s = s"
  unfolding c_str_def by (induction s) auto

lemma c_str_idem [simp]: "c_str (c_str s) = c_str s"
  by (simp add: c_str_id)

lemma strcmp_c_str: "strcmp (c_str a) (c_str b) = strcmp a b"
  by (induction a b rule: strcmp.induct) (auto simp: c_str_Cons)

lemma strcmp_less_iff:
  "NUL \<notin> set a \<Longrightarrow> NUL \<notin> set b \<Longrightarrow> strcmp a b < 0 \<longleftrightarrow> a < b"
proof (induction a b rule: strcmp.induct)
  case 1
  then show ?case by simp
next
  case (2 b bs)
  then have "byte b \<noteq> 0" by auto
  with byte_nonneg [of b] have "0 < byte b" by linarith
  then show ?case by simp
next
  case (3 a as)
  have "0 \<le> byte a" by simp
  then have "\<not> byte a < 0" by linarith
  then show ?case by simp
next
  case (4 a as b bs)
  then show ?case
    using byte_less_iff [of a b] by auto
qed

lemma strcmp_eq_iff:
  "NUL \<notin> set a \<Longrightarrow> NUL \<notin> set b \<Longrightarrow> strcmp a b = 0 \<longleftrightarrow> a = b"
proof (induction a b rule: strcmp.induct)
  case (4 a as b bs)
  then show ?case
    using byte_eq_iff [of a b] by auto
qed auto

lemma strcmp_le_iff:
  "NUL \<notin> set a \<Longrightarrow> NUL \<notin> set b \<Longrightarrow> strcmp a b \<le> 0 \<longleftrightarrow> a \<le> b"
  using strcmp_less_iff [of a b] strcmp_eq_iff [of a b] by (auto simp: order_le_less)

text \<open>On arbitrary buffers \<^verbatim>\<open>strcmp\<close> orders the C strings they hold.\<close>

lemma strcmp_le_c_str: "strcmp a b \<le> 0 \<longleftrightarrow> c_str a \<le> c_str b"
  using strcmp_le_iff [of "c_str a" "c_str b"] by (simp add: strcmp_c_str)

lemma strcmp_eq_c_str: "strcmp a b = 0 \<longleftrightarrow> c_str a = c_str b"
  using strcmp_eq_iff [of "c_str a" "c_str b"] by (simp add: strcmp_c_str)

lemma strcmp_gt_c_str: "0 < strcmp a b \<longleftrightarrow> c_str b < c_str a"
  using strcmp_le_c_str [of a b] by (simp add: not_le [symmetric])

section \<open>The worker: \<^verbatim>\<open>be_childish\<close>\<close>

text \<open>
  \<^verbatim>\<open>qsort\<close> is the C library's. It is modelled as a comparison sort by insertion: the
  comparison \<^verbatim>\<open>qs_compare\<close> returns 0 on equal strings only, so every sorting algorithm
  leaves the same sequence of strings in the array.
\<close>

fun qs_insert :: "('a \<Rightarrow> 'a \<Rightarrow> int) \<Rightarrow> 'a \<Rightarrow> 'a list \<Rightarrow> 'a list" where
  "qs_insert cmp x [] = [x]"
| "qs_insert cmp x (y # ys) =
     (if cmp x y \<le> 0 then x # y # ys else y # qs_insert cmp x ys)"

definition qsort :: "('a \<Rightarrow> 'a \<Rightarrow> int) \<Rightarrow> 'a list \<Rightarrow> 'a list" where
  "qsort cmp xs = foldr (qs_insert cmp) xs []"

definition qs_compare :: "string \<Rightarrow> string \<Rightarrow> int" where
  "qs_compare s1 s2 = strcmp s1 s2"

text \<open>
  The reading loop of \<^verbatim>\<open>be_childish\<close>. Each line is kept as \<^verbatim>\<open>estrdup\<close> copies it: up to
  its first NUL. \<open>oom\<close> is the number of the first line for which \<^verbatim>\<open>realloc\<close> or
  \<^verbatim>\<open>malloc\<close> returns a null pointer, if there is one; the worker then leaves through
  \<^verbatim>\<open>err_exit\<close>, here the result \<open>None\<close>.
\<close>

function read_lines :: "nat option \<Rightarrow> nat \<Rightarrow> string \<Rightarrow> string list option" where
  "read_lines oom num_lines inp =
     (case fgets MAX_LINE inp of
        None \<Rightarrow> Some []
      | Some (input, rest) \<Rightarrow>
          if oom = Some num_lines then None
          else map_option ((#) (c_str input)) (read_lines oom (num_lines + 1) rest))"
  by pat_completeness auto
termination
  by (relation "measure (\<lambda>(oom, n, inp). length inp)") (auto simp: fgets_shorter)

declare read_lines.simps [simp del]

text \<open>
  The worker's standard output and its exit status. Pipes are unbounded streams here, so
  \<^verbatim>\<open>fputs\<close> does not fail.
\<close>

definition be_childish :: "nat option \<Rightarrow> string \<Rightarrow> string \<times> int" where
  "be_childish oom inp =
     (case read_lines oom 0 inp of
        None \<Rightarrow> ([], 1)
      | Some lines \<Rightarrow> (concat (qsort qs_compare lines), 0))"

subsection \<open>Well-formed lines\<close>

text \<open>
  A record of the input: text without NUL bytes, ended by its only newline, and short
  enough for one \<^verbatim>\<open>fgets\<close> call to read it whole.
\<close>

definition wf_line :: "string \<Rightarrow> bool" where
  "wf_line l \<longleftrightarrow>
     l \<noteq> [] \<and> last l = newline \<and> newline \<notin> set (butlast l) \<and> NUL \<notin> set l \<and>
     length l < MAX_LINE"

lemma take_line_text:
  "newline \<notin> set t \<Longrightarrow> length t < n \<Longrightarrow> take_line n (t @ newline # s) = (t @ [newline], s)"
  by (induction t arbitrary: n) auto

lemma fgets_wf_line:
  assumes "wf_line l"
  shows "fgets MAX_LINE (l @ s) = Some (l, s)"
proof -
  from assms have l: "l = butlast l @ [newline]" and nl: "newline \<notin> set (butlast l)"
    by (auto simp: wf_line_def dest: append_butlast_last_id)
  from assms have "l \<noteq> []" and "length l < MAX_LINE"
    by (simp_all add: wf_line_def)
  then have len: "length (butlast l) < MAX_LINE - 1"
    by (cases l) (simp_all add: MAX_LINE_def)
  have "take_line (MAX_LINE - 1) (butlast l @ newline # s) = (butlast l @ [newline], s)"
    using nl len by (rule take_line_text)
  moreover have "butlast l @ newline # s = l @ s"
    using l by (metis append.assoc append_Cons append_Nil)
  ultimately show ?thesis
    using l assms by (simp add: fgets_def wf_line_def)
qed

lemma fgets_Nil [simp]: "fgets n [] = None"
  by (simp add: fgets_def)

lemma fgets_all_Nil [simp]: "fgets_all [] = []"
  by (simp add: fgets_all.simps)

lemma fgets_all_wf_lines: "\<forall>l\<in>set ls. wf_line l \<Longrightarrow> fgets_all (concat ls) = ls"
proof (induction ls)
  case Nil
  then show ?case by simp
next
  case (Cons l ls)
  then have "fgets MAX_LINE (l @ concat ls) = Some (l, concat ls)"
    by (simp add: fgets_wf_line)
  with Cons show ?case
    by (simp add: fgets_all.simps [of "l @ concat ls"])
qed

lemma wf_line_no_NUL: "wf_line l \<Longrightarrow> NUL \<notin> set l"
  by (simp add: wf_line_def)

lemma read_lines_no_oom: "read_lines None n inp = Some (map c_str (fgets_all inp))"
proof (induction inp arbitrary: n rule: fgets_all.induct)
  case (1 s)
  show ?case
  proof (cases "fgets MAX_LINE s")
    case None
    then show ?thesis
      by (simp add: read_lines.simps [of _ _ s] fgets_all.simps [of s])
  next
    case (Some p)
    obtain l r where p: "p = (l, r)" by (cases p)
    from "1" [OF Some [unfolded p] refl, of "n + 1"] Some p show ?thesis
      by (simp add: read_lines.simps [of _ _ s] fgets_all.simps [of s])
  qed
qed

lemma qs_insert_insort:
  "NUL \<notin> set x \<Longrightarrow> \<forall>y\<in>set ys. NUL \<notin> set y \<Longrightarrow> qs_insert qs_compare x ys = insort x ys"
  by (induction ys) (auto simp: qs_compare_def strcmp_le_iff)

lemma qsort_sort: "\<forall>x\<in>set xs. NUL \<notin> set x \<Longrightarrow> qsort qs_compare xs = sort xs"
proof (induction xs)
  case Nil
  then show ?case by (simp add: qsort_def)
next
  case (Cons x xs)
  then have "qsort qs_compare xs = sort xs" by simp
  moreover have "\<forall>y\<in>set (sort xs). NUL \<notin> set y"
    using Cons.prems by simp
  ultimately show ?case
    using Cons.prems qs_insert_insort [of x "sort xs"]
    by (simp add: qsort_def sort_key_def)
qed

lemma be_childish_wf_lines:
  assumes "\<forall>l\<in>set ls. wf_line l"
  shows "be_childish None (concat ls) = (concat (sort ls), 0)"
proof -
  have "map c_str ls = ls"
    using assms by (simp add: map_idI c_str_id wf_line_no_NUL)
  then have "read_lines None 0 (concat ls) = Some ls"
    using assms by (simp add: read_lines_no_oom fgets_all_wf_lines)
  moreover have "qsort qs_compare ls = sort ls"
    using assms by (simp add: qsort_sort wf_line_no_NUL)
  ultimately show ?thesis
    by (simp add: be_childish_def)
qed

subsection \<open>The order of the worker's sort\<close>

lemma append_less_append: "s @ x < s @ y \<longleftrightarrow> x < (y :: 'a :: linorder list)"
  by (induction s) auto

lemma sorted_wrt_qs_compare:
  "\<forall>x\<in>set xs. NUL \<notin> set x \<Longrightarrow> sorted_wrt (\<lambda>a b. qs_compare a b \<le> 0) xs \<longleftrightarrow> sorted xs"
  by (induction xs) (auto simp: qs_compare_def strcmp_le_iff)

text \<open>
  Claim C3, as amended. The worker sorts by \<^verbatim>\<open>strcmp\<close> on the lines as \<^verbatim>\<open>fgets\<close> stored them,
  terminating newline included: its output is the sorted permutation of its lines in the
  byte-wise lexicographic order of the whole lines. When the text of one line is a strict
  prefix of the text of another, the shorter line comes first exactly when the byte that
  follows the common prefix in the longer line is greater than the newline byte.
\<close>

theorem worker_sorts_whole_lines:
  assumes "\<forall>l\<in>set ls. wf_line l"
    and "NUL \<notin> set s" and "NUL \<notin> set t" and "newline \<notin> set t"
  shows "fst (be_childish None (concat ls)) = concat (sort ls) \<and>
    mset (sort ls) = mset ls \<and>
    sorted_wrt (\<lambda>a b. qs_compare a b \<le> 0) (sort ls) \<and>
    (qs_compare (s @ [newline]) (t @ [newline]) \<le> 0 \<longleftrightarrow> s @ [newline] \<le> t @ [newline]) \<and>
    (strict_prefix s t \<longrightarrow>
       (qs_compare (s @ [newline]) (t @ [newline]) < 0 \<longleftrightarrow> newline < t ! length s))"
proof -
  have a: "fst (be_childish None (concat ls)) = concat (sort ls)"
    using assms(1) by (simp add: be_childish_wf_lines)
  have "\<forall>x\<in>set (sort ls). NUL \<notin> set x"
    using assms(1) by (simp add: wf_line_no_NUL)
  then have b: "sorted_wrt (\<lambda>a b. qs_compare a b \<le> 0) (sort ls)"
    by (simp add: sorted_wrt_qs_compare)
  have nul: "NUL \<notin> set (s @ [newline])" "NUL \<notin> set (t @ [newline])"
    using assms(2,3) by (simp_all add: NUL_def newline_def)
  have c: "qs_compare (s @ [newline]) (t @ [newline]) \<le> 0 \<longleftrightarrow> s @ [newline] \<le> t @ [newline]"
    using nul by (simp add: qs_compare_def strcmp_le_iff)
  have d: "qs_compare (s @ [newline]) (t @ [newline]) < 0 \<longleftrightarrow> newline < t ! length s"
    if "strict_prefix s t"
  proof -
    from that obtain c u where t: "t = s @ c # u"
      by (rule strict_prefixE')
    with assms(4) have "c \<noteq> newline" by auto
    moreover have "qs_compare (s @ [newline]) (t @ [newline]) < 0 \<longleftrightarrow> s @ [newline] < t @ [newline]"
      using nul by (simp add: qs_compare_def strcmp_less_iff)
    moreover have "s @ [newline] < t @ [newline] \<longleftrightarrow> [newline] < c # u @ [newline]"
      using append_less_append [of s "[newline]" "c # u @ [newline]"] by (simp add: t)
    ultimately show ?thesis
      by (auto simp: t)
  qed
  from a b c d show ?thesis by simp
qed

text \<open>The theorem at the lines \<open>b\<close>, \<open>a\<close> and at the texts \<open>ab\<close>, \<open>abc\<close>.\<close>

theorem worker_sorts_whole_lines_witness:
  "fst (be_childish None (concat [''b\<newline>'', ''a\<newline>''])) = concat [''a\<newline>'', ''b\<newline>''] \<and>
   qs_compare (''ab'' @ [newline]) (''abc'' @ [newline]) < 0"
proof -
  have h1: "\<forall>l\<in>set [''b\<newline>'', ''a\<newline>'']. wf_line l"
    by (simp add: wf_line_def newline_def NUL_def MAX_LINE_def)
  have h2: "NUL \<notin> set ''ab''" "NUL \<notin> set ''abc''" "newline \<notin> set ''abc''"
    by (simp_all add: newline_def NUL_def)
  have p: "strict_prefix ''ab'' ''abc''" by code_simp
  have s: "sort [''b\<newline>'', ''a\<newline>''] = [''a\<newline>'', ''b\<newline>'']" by code_simp
  have n: "newline < ''abc'' ! length ''ab''" by (simp add: newline_def)
  show ?thesis
    using worker_sorts_whole_lines [OF h1 h2] p s n by simp
qed

text \<open>
  Claim C3 as stated fails: the text \<open>ab\<close> is a strict prefix of \<open>ab\<close> followed by a tab
  (byte 9), and the worker writes the longer line first, since the newline (byte 10) that
  ends the shorter line is greater than the tab.
\<close>

theorem prefix_line_sorts_last_counterexample:
  "strict_prefix ''ab'' (''ab'' @ [CHR 0x09]) \<and>
   fst (be_childish None (concat [''ab'' @ [newline], ''ab'' @ [CHR 0x09] @ [newline]])) =
     concat [''ab'' @ [CHR 0x09] @ [newline], ''ab'' @ [newline]]"
  by code_simp

section \<open>The distributor: \<^verbatim>\<open>distribute\<close>\<close>

text \<open>
  The loop of \<^verbatim>\<open>distribute\<close> with its cursor \<open>n\<close>. The result is the log of the calls
  \<^verbatim>\<open>fputs(input, kids[n].fp_to)\<close> in the order they are made, each with the worker's index
  and the bytes written. With no worker at all \<^verbatim>\<open>kids[n]\<close> lies outside the array: the
  result is \<open>None\<close>. Pipes are unbounded streams here, so \<^verbatim>\<open>fputs\<close> does not fail and the
  call of \<^verbatim>\<open>err_exit\<close> in the loop is never reached.
\<close>

function distribute_loop :: "nat \<Rightarrow> nat \<Rightarrow> string \<Rightarrow> (nat \<times> string) list option" where
  "distribute_loop nkids n inp =
     (case fgets MAX_LINE inp of
        None \<Rightarrow> Some []
      | Some (input, rest) \<Rightarrow>
          if n < nkids
          then map_option ((#) (n, c_str input))
                 (distribute_loop nkids (if n + 1 \<ge> nkids then 0 else n + 1) rest)
          else None)"
  by pat_completeness auto
termination
  by (relation "measure (\<lambda>(nkids, n, inp). length inp)") (auto simp: fgets_shorter)

declare distribute_loop.simps [simp del]

text \<open>
  What worker \<open>i\<close> finds on its standard input once \<^verbatim>\<open>distribute\<close> has closed the pipes:
  the bytes written to it, in order.
\<close>

definition share :: "(nat \<times> string) list \<Rightarrow> nat \<Rightarrow> string list" where
  "share log i = map snd (filter (\<lambda>w. fst w = i) log)"

definition distribute :: "nat \<Rightarrow> string \<Rightarrow> string list option" where
  "distribute nkids inp =
     map_option (\<lambda>log. map (\<lambda>i. concat (share log i)) [0..<nkids]) (distribute_loop nkids 0 inp)"

lemma distribute_loop_cursor:
  "n < nkids \<Longrightarrow>
   distribute_loop nkids n inp =
     Some (map (\<lambda>k. ((n + k) mod nkids, c_str (fgets_all inp ! k))) [0..<length (fgets_all inp)])"
proof (induction inp arbitrary: n rule: fgets_all.induct)
  case (1 s)
  show ?case
  proof (cases "fgets MAX_LINE s")
    case None
    then show ?thesis
      by (simp add: distribute_loop.simps [of _ _ s] fgets_all.simps [of s])
  next
    case (Some p)
    obtain l r where p: "p = (l, r)" by (cases p)
    let ?n' = "if n + 1 \<ge> nkids then 0 else n + 1"
    have n': "?n' < nkids" using "1.prems" by auto
    have step: "(?n' + k) mod nkids = (n + Suc k) mod nkids" for k
    proof (cases "n + 1 \<ge> nkids")
      case True
      with "1.prems" have eq: "n + 1 = nkids" by simp
      have "n + Suc k = nkids + k" using eq by simp
      then have "(n + Suc k) mod nkids = k mod nkids" by (simp only: mod_add_self1)
      then show ?thesis using True by simp
    next
      case False
      then show ?thesis by simp
    qed
    from "1.IH" [OF Some [unfolded p] refl n']
    have "distribute_loop nkids ?n' r =
      Some (map (\<lambda>k. ((n + Suc k) mod nkids, c_str (fgets_all r ! k))) [0..<length (fgets_all r)])"
      by (simp only: step)
    with Some p "1.prems" show ?thesis
      by (simp add: distribute_loop.simps [of _ _ s] fgets_all.simps [of s] map_upt_Suc del: upt_Suc)
  qed
qed


lemma share_round_robin:
  "share (map (\<lambda>k. (k mod nkids, f k)) [0..<m]) i = map f (filter (\<lambda>k. k mod nkids = i) [0..<m])"
  by (simp add: share_def filter_map comp_def)

text \<open>
  Claim C6. With at least one worker, the \<open>k\<close>-th line read from the input (counting
  from 0) is written to worker \<open>k mod nkids\<close>, and to no other; so worker \<open>i\<close> receives
  the lines whose number is \<open>i\<close> modulo \<open>nkids\<close>, in input order.
\<close>

theorem distribute_round_robin:
  assumes "0 < nkids"
  shows "distribute_loop nkids 0 inp =
      Some (map (\<lambda>k. (k mod nkids, c_str (fgets_all inp ! k))) [0..<length (fgets_all inp)]) \<and>
    distribute nkids inp =
      Some (map (\<lambda>i. concat (map (\<lambda>k. c_str (fgets_all inp ! k))
                  (filter (\<lambda>k. k mod nkids = i) [0..<length (fgets_all inp)]))) [0..<nkids])"
  using distribute_loop_cursor [OF assms, of inp]
  by (simp add: distribute_def share_round_robin)

text \<open>The theorem at two workers and the input lines \<open>a\<close>, \<open>b\<close>, \<open>c\<close>.\<close>

theorem distribute_round_robin_witness:
  "distribute_loop 2 0 ''a\<newline>b\<newline>c\<newline>'' = Some [(0, ''a\<newline>''), (1, ''b\<newline>''), (0, ''c\<newline>'')] \<and>
   distribute 2 ''a\<newline>b\<newline>c\<newline>'' = Some [''a\<newline>c\<newline>'', ''b\<newline>'']"
proof -
  have l: "fgets_all ''a\<newline>b\<newline>c\<newline>'' = [''a\<newline>'', ''b\<newline>'', ''c\<newline>'']"
    by code_simp
  have u: "[0..<3] = [0, 1, 2]" by code_simp
  have v: "[0..<2] = [0, 1]" by code_simp
  have c: "c_str ''a\<newline>'' = ''a\<newline>''" "c_str ''b\<newline>'' = ''b\<newline>''" "c_str ''c\<newline>'' = ''c\<newline>''"
    by code_simp+
  show ?thesis
    using distribute_round_robin [of 2 "''a\<newline>b\<newline>c\<newline>''"]
    by (simp add: l u v c)
qed

section \<open>The merger: \<^verbatim>\<open>merge\<close>\<close>

text \<open>
  The merger's view of worker \<open>i\<close>: \<^verbatim>\<open>kids[i].fp_from\<close>, the buffer \<^verbatim>\<open>lines[i]\<close> and
  \<^verbatim>\<open>len[i]\<close>. The three arrays of the source have \<open>nkids\<close> entries each and are kept as
  one list of slots. \<open>fp_from\<close> is the unread rest of the pipe from the worker, \<open>None\<close>
  once the stream is closed and the pointer set to null.
\<close>

record slot =
  fp_from :: "string option"
  line :: string
  len :: int

text \<open>
  \<^verbatim>\<open>read_line\<close> refills one slot. Reading through the null pointer of a closed stream is
  a fault: \<open>None\<close>.
\<close>

definition read_line :: "string option \<Rightarrow> nat \<Rightarrow> slot option" where
  "read_line fp maxlen =
     (case fp of
        None \<Rightarrow> None
      | Some s \<Rightarrow>
          (case fgets maxlen s of
             Some (buffer, rest) \<Rightarrow>
               Some \<lparr>fp_from = Some rest, line = buffer, len = int (strlen buffer)\<rparr>
           | None \<Rightarrow> Some \<lparr>fp_from = None, line = [], len = - 1\<rparr>))"

fun not_all_done :: "slot list \<Rightarrow> bool" where
  "not_all_done [] = False"
| "not_all_done (sl # slots) = (if 0 < len sl then True else not_all_done slots)"

text \<open>
  The scan of \<^verbatim>\<open>min_line\<close>: one step for index \<open>i\<close>, on the pair of \<^verbatim>\<open>min_kid\<close> and
  \<^verbatim>\<open>min_str\<close> (\<open>None\<close> is the null pointer).
\<close>

definition min_step :: "slot list \<Rightarrow> nat \<Rightarrow> nat \<times> string option \<Rightarrow> nat \<times> string option" where
  "min_step slots i m =
     (if len (slots ! i) \<le> 0 then m
      else (case snd m of
              None \<Rightarrow> (i, Some (line (slots ! i)))
            | Some min_str \<Rightarrow>
                if 0 < strcmp min_str (line (slots ! i)) then (i, Some (line (slots ! i)))
                else m))"

definition min_search :: "slot list \<Rightarrow> nat \<times> string option" where
  "min_search slots = fold (min_step slots) [0..<length slots] (0, None)"

text \<open>
  \<^verbatim>\<open>min_line\<close> returns the contents of \<^verbatim>\<open>output\<close> and the slots after the refill.
  \<^verbatim>\<open>strcpy\<close> from a null \<^verbatim>\<open>min_str\<close> is a fault: \<open>None\<close>.
\<close>

definition min_line :: "slot list \<Rightarrow> (string \<times> slot list) option" where
  "min_line slots =
     (case min_search slots of
        (min_kid, None) \<Rightarrow> None
      | (min_kid, Some min_str) \<Rightarrow>
          (case read_line (fp_from (slots ! min_kid)) MAX_LINE of
             None \<Rightarrow> None
           | Some sl \<Rightarrow> Some (c_str min_str, slots[min_kid := sl])))"

lemma not_all_done_set: "not_all_done slots \<longleftrightarrow> (\<exists>sl\<in>set slots. 0 < len sl)"
  by (induction slots) auto

lemma not_all_done_iff: "not_all_done slots \<longleftrightarrow> (\<exists>i<length slots. 0 < len (slots ! i))"
  unfolding not_all_done_set by (metis in_set_conv_nth)

text \<open>What the scan has found after the indices below \<open>n\<close>.\<close>

definition scanned :: "slot list \<Rightarrow> nat \<Rightarrow> nat \<times> string option \<Rightarrow> bool" where
  "scanned slots n m \<longleftrightarrow>
     (case snd m of
        None \<Rightarrow> \<forall>i<n. len (slots ! i) \<le> 0
      | Some min_str \<Rightarrow>
          fst m < n \<and> 0 < len (slots ! fst m) \<and> min_str = line (slots ! fst m) \<and>
          (\<forall>i<n. 0 < len (slots ! i) \<longrightarrow> strcmp min_str (line (slots ! i)) \<le> 0) \<and>
          (\<forall>i<fst m. 0 < len (slots ! i) \<longrightarrow> 0 < strcmp (line (slots ! i)) min_str))"

lemma scanned_step:
  assumes "scanned slots n m"
  shows "scanned slots (Suc n) (min_step slots n m)"
proof (cases "len (slots ! n) \<le> 0")
  case True
  with assms show ?thesis
    by (auto simp: scanned_def min_step_def less_Suc_eq split: option.splits)
next
  case False
  show ?thesis
  proof (cases "snd m")
    case None
    with assms False show ?thesis
      by (auto simp: scanned_def min_step_def less_Suc_eq strcmp_le_c_str)
  next
    case (Some min_str)
    show ?thesis
    proof (cases "0 < strcmp min_str (line (slots ! n))")
      case True
      then have lt: "c_str (line (slots ! n)) < c_str min_str"
        by (simp add: strcmp_gt_c_str)
      have "strcmp (line (slots ! n)) (line (slots ! i)) \<le> 0"
        if "i < n" "0 < len (slots ! i)" for i
      proof -
        from assms Some that have "c_str min_str \<le> c_str (line (slots ! i))"
          by (auto simp: scanned_def strcmp_le_c_str)
        with lt show ?thesis by (simp add: strcmp_le_c_str)
      qed
      moreover have "0 < strcmp (line (slots ! i)) (line (slots ! n))"
        if "i < n" "0 < len (slots ! i)" for i
      proof -
        from assms Some that have "c_str min_str \<le> c_str (line (slots ! i))"
          by (auto simp: scanned_def strcmp_le_c_str)
        with lt show ?thesis by (simp add: strcmp_gt_c_str)
      qed
      ultimately show ?thesis
        using False Some True
        by (auto simp: scanned_def min_step_def less_Suc_eq strcmp_le_c_str)
    next
      case no: False
      with assms False Some show ?thesis
        by (auto simp: scanned_def min_step_def less_Suc_eq)
    qed
  qed
qed

lemma scanned_fold: "scanned slots n (fold (min_step slots) [0..<n] (0, None))"
proof (induction n)
  case 0
  then show ?case by (simp add: scanned_def)
next
  case (Suc n)
  then show ?case by (simp add: scanned_step)
qed

lemma scanned_min_search: "scanned slots (length slots) (min_search slots)"
  by (simp add: min_search_def scanned_fold)

subsection \<open>The loop of \<^verbatim>\<open>merge\<close>\<close>

text \<open>
  Every call of \<^verbatim>\<open>min_line\<close> takes bytes off some pipe or closes one, so the loop ends.
\<close>

definition slot_weight :: "slot \<Rightarrow> nat" where
  "slot_weight sl =
     (case fp_from sl of None \<Rightarrow> 0 | Some s \<Rightarrow> length s) + (if 0 < len sl then 1 else 0)"

definition weight :: "slot list \<Rightarrow> nat" where
  "weight slots = sum_list (map slot_weight slots)"

lemma weight_update:
  assumes "k < length slots" and "slot_weight sl < slot_weight (slots ! k)"
  shows "weight (slots[k := sl]) < weight slots"
proof -
  have "slots = take k slots @ slots ! k # drop (Suc k) slots"
    using assms(1) by (rule id_take_nth_drop)
  then have "weight slots =
      weight (take k slots) + slot_weight (slots ! k) + weight (drop (Suc k) slots)"
    unfolding weight_def by (metis map_append sum_list.append list.simps(9) sum_list.Cons add.assoc)
  moreover have "weight (slots[k := sl]) =
      weight (take k slots) + slot_weight sl + weight (drop (Suc k) slots)"
    using assms(1) by (simp add: weight_def upd_conv_take_nth_drop)
  ultimately show ?thesis using assms(2) by simp
qed

lemma read_line_weight:
  assumes "read_line fp MAX_LINE = Some sl"
  shows "slot_weight sl \<le> (case fp of None \<Rightarrow> 0 | Some s \<Rightarrow> length s)"
proof (cases fp)
  case None
  with assms show ?thesis by (simp add: read_line_def)
next
  case (Some s)
  show ?thesis
  proof (cases "fgets MAX_LINE s")
    case None
    with assms Some show ?thesis by (auto simp: read_line_def slot_weight_def)
  next
    case fg: (Some p)
    obtain l r where p: "p = (l, r)" by (cases p)
    from fg p have "length r < length s" by (simp add: fgets_shorter)
    with assms Some fg p show ?thesis by (auto simp: read_line_def slot_weight_def)
  qed
qed

lemma min_line_weight:
  assumes "min_line slots = Some (output, slots')"
  shows "weight slots' < weight slots"
proof -
  obtain k m where ms: "min_search slots = (k, m)" by (cases "min_search slots")
  with assms obtain min_str where m: "m = Some min_str"
    by (cases m) (auto simp: min_line_def)
  from scanned_min_search [of slots] ms m
  have k: "k < length slots" and pos: "0 < len (slots ! k)"
    by (auto simp: scanned_def)
  from assms ms m obtain sl where rl: "read_line (fp_from (slots ! k)) MAX_LINE = Some sl"
    and s': "slots' = slots[k := sl]"
    by (auto simp: min_line_def split: option.splits)
  from read_line_weight [OF rl] pos have "slot_weight sl < slot_weight (slots ! k)"
    by (simp add: slot_weight_def)
  with k s' show ?thesis by (simp add: weight_update)
qed

text \<open>
  The loop of \<^verbatim>\<open>merge\<close>: what it writes to standard output from the given slots on, or
  \<open>None\<close> after a fault.
\<close>

function merge_loop :: "slot list \<Rightarrow> string option" where
  "merge_loop slots =
     (if not_all_done slots
      then (case min_line slots of
              None \<Rightarrow> None
            | Some (output, slots') \<Rightarrow> map_option ((@) output) (merge_loop slots'))
      else Some [])"
  by pat_completeness auto
termination
  by (relation "measure weight") (auto simp: min_line_weight)

declare merge_loop.simps [simp del]

text \<open>The preload of \<^verbatim>\<open>merge\<close>: one \<^verbatim>\<open>read_line\<close> for each worker, in order.\<close>

fun preload :: "string option list \<Rightarrow> slot list option" where
  "preload [] = Some []"
| "preload (fp # fps) =
     (case read_line fp MAX_LINE of
        None \<Rightarrow> None
      | Some sl \<Rightarrow> map_option ((#) sl) (preload fps))"

text \<open>
  \<^verbatim>\<open>merge\<close>, given what each worker writes to its standard output: the bytes the merger
  writes to its own.
\<close>

definition merge :: "string list \<Rightarrow> string option" where
  "merge from_kids =
     (case preload (map Some from_kids) of
        None \<Rightarrow> None
      | Some slots \<Rightarrow> merge_loop slots)"

subsection \<open>The selection of \<^verbatim>\<open>min_line\<close>\<close>

lemma min_search_found:
  assumes "not_all_done slots"
  shows "\<exists>k min_str.
    min_search slots = (k, Some min_str) \<and> k < length slots \<and> 0 < len (slots ! k) \<and>
    min_str = line (slots ! k) \<and>
    (\<forall>i<length slots. 0 < len (slots ! i) \<longrightarrow> strcmp min_str (line (slots ! i)) \<le> 0)"
proof -
  obtain k m where ms: "min_search slots = (k, m)" by (cases "min_search slots")
  from assms obtain i where "i < length slots" "0 < len (slots ! i)"
    by (auto simp: not_all_done_iff)
  then have "\<not> (\<forall>i<length slots. len (slots ! i) \<le> 0)" by auto
  with scanned_min_search [of slots] ms obtain min_str where "m = Some min_str"
    by (cases m) (auto simp: scanned_def)
  with scanned_min_search [of slots] ms show ?thesis
    by (auto simp: scanned_def)
qed

text \<open>
  Claim C10. When some \<^verbatim>\<open>len[i]\<close> is positive, which is what \<^verbatim>\<open>not_all_done\<close> tests before
  every call of \<^verbatim>\<open>min_line\<close> in the loop of \<^verbatim>\<open>merge\<close>, the scan ends with \<^verbatim>\<open>min_str\<close>
  pointing to the buffer of a worker with a positive length, a minimal one among the
  buffered lines: \<^verbatim>\<open>strcpy\<close> does not read through a null pointer.
\<close>

theorem min_line_finds_head:
  assumes "not_all_done slots"
  shows "\<exists>min_kid min_str.
    min_search slots = (min_kid, Some min_str) \<and> min_kid < length slots \<and>
    0 < len (slots ! min_kid) \<and> min_str = line (slots ! min_kid) \<and>
    (\<forall>i<length slots. 0 < len (slots ! i) \<longrightarrow> strcmp min_str (line (slots ! i)) \<le> 0)"
  using assms by (rule min_search_found)

text \<open>The theorem at two slots, the first of them exhausted.\<close>

theorem min_line_finds_head_witness:
  "not_all_done [\<lparr>fp_from = None, line = [], len = - 1\<rparr>, \<lparr>fp_from = Some [], line = ''a\<newline>'', len = 2\<rparr>] \<and>
   (\<exists>min_kid min_str.
     min_search [\<lparr>fp_from = None, line = [], len = - 1\<rparr>, \<lparr>fp_from = Some [], line = ''a\<newline>'', len = 2\<rparr>]
       = (min_kid, Some min_str) \<and>
     min_kid < length [\<lparr>fp_from = None, line = [], len = - 1\<rparr>, \<lparr>fp_from = Some [], line = ''a\<newline>'', len = 2\<rparr>] \<and>
     0 < len ([\<lparr>fp_from = None, line = [], len = - 1\<rparr>, \<lparr>fp_from = Some [], line = ''a\<newline>'', len = 2\<rparr>] ! min_kid) \<and>
     min_str = line ([\<lparr>fp_from = None, line = [], len = - 1\<rparr>, \<lparr>fp_from = Some [], line = ''a\<newline>'', len = 2\<rparr>] ! min_kid))"
proof -
  have h: "not_all_done [\<lparr>fp_from = None, line = [], len = - 1\<rparr>, \<lparr>fp_from = Some [], line = ''a\<newline>'', len = 2\<rparr>]"
    by simp
  from min_line_finds_head [OF h] h show ?thesis by blast
qed

subsection \<open>Merging sorted streams of well-formed lines\<close>

text \<open>
  A slot holds the lines \<open>ps\<close> when they are what the merger has still to emit for that
  worker: the first of them in the buffer, the others unread in the pipe; with no line
  left the stream is closed and the length is \<open>-1\<close>.
\<close>

definition slot_holds :: "slot \<Rightarrow> string list \<Rightarrow> bool" where
  "slot_holds sl ps \<longleftrightarrow>
     (\<forall>l\<in>set ps. wf_line l) \<and>
     (case ps of
        [] \<Rightarrow> fp_from sl = None \<and> len sl = - 1
      | p # ps' \<Rightarrow> fp_from sl = Some (concat ps') \<and> line sl = p \<and> len sl = int (length p))"

lemma slot_holds_Nil: "slot_holds sl [] \<longleftrightarrow> fp_from sl = None \<and> len sl = - 1"
  by (simp add: slot_holds_def)

lemma slot_holds_Cons:
  "slot_holds sl (p # ps) \<longleftrightarrow>
     wf_line p \<and> (\<forall>l\<in>set ps. wf_line l) \<and> fp_from sl = Some (concat ps) \<and> line sl = p \<and>
     len sl = int (length p)"
  by (auto simp: slot_holds_def)

lemma wf_line_strlen: "wf_line p \<Longrightarrow> strlen p = length p"
  by (simp add: strlen_def c_str_id wf_line_no_NUL)

lemma wf_line_length: "wf_line p \<Longrightarrow> 0 < length p"
  by (simp add: wf_line_def)

lemma wf_line_Nil [simp]: "\<not> wf_line []"
  by (simp add: wf_line_def)

lemma slot_holds_len: "slot_holds sl ps \<Longrightarrow> 0 < len sl \<longleftrightarrow> ps \<noteq> []"
  by (cases ps) (auto simp: slot_holds_Nil slot_holds_Cons wf_line_length)

lemma read_line_holds:
  assumes "\<forall>l\<in>set ps. wf_line l"
  shows "\<exists>sl. read_line (Some (concat ps)) MAX_LINE = Some sl \<and> slot_holds sl ps"
proof (cases ps)
  case Nil
  then show ?thesis by (simp add: read_line_def slot_holds_Nil)
next
  case (Cons p ps')
  with assms have "fgets MAX_LINE (p @ concat ps') = Some (p, concat ps')"
    by (simp add: fgets_wf_line)
  with assms Cons show ?thesis
    by (simp add: read_line_def slot_holds_Cons wf_line_strlen)
qed

lemma preload_holds:
  assumes "\<forall>ps\<in>set pss. \<forall>l\<in>set ps. wf_line l"
  shows "\<exists>slots. preload (map (\<lambda>ps. Some (concat ps)) pss) = Some slots \<and>
    list_all2 slot_holds slots pss"
  using assms
proof (induction pss)
  case Nil
  then show ?case by simp
next
  case (Cons ps pss)
  then obtain sl where "read_line (Some (concat ps)) MAX_LINE = Some sl" "slot_holds sl ps"
    using read_line_holds [of ps] by auto
  moreover from Cons obtain slots where
    "preload (map (\<lambda>ps. Some (concat ps)) pss) = Some slots" "list_all2 slot_holds slots pss"
    by auto
  ultimately show ?case by simp
qed

lemma min_line_step:
  assumes holds: "list_all2 slot_holds slots pss"
    and sorted: "\<forall>ps\<in>set pss. sorted ps"
    and some: "not_all_done slots"
  shows "\<exists>k p ps' slots'.
    k = fst (min_search slots) \<and> k < length pss \<and> pss ! k = p # ps' \<and>
    min_line slots = Some (p, slots') \<and> list_all2 slot_holds slots' (pss[k := ps']) \<and>
    (\<forall>x\<in>set (concat pss). p \<le> x)"
proof -
  have len: "length slots = length pss"
    using holds by (rule list_all2_lengthD)
  from min_search_found [OF some] obtain k min_str where
    ms: "min_search slots = (k, Some min_str)" and k: "k < length slots"
    and pos: "0 < len (slots ! k)" and str: "min_str = line (slots ! k)"
    and le: "\<forall>i<length slots. 0 < len (slots ! i) \<longrightarrow> strcmp min_str (line (slots ! i)) \<le> 0"
    by blast
  have hk: "slot_holds (slots ! k) (pss ! k)"
    using holds k by (rule list_all2_nthD)
  with pos obtain p ps' where pk: "pss ! k = p # ps'"
    by (cases "pss ! k") (auto simp: slot_holds_len)
  with hk have wfp: "wf_line p" and wfps: "\<forall>l\<in>set ps'. wf_line l"
    and fp: "fp_from (slots ! k) = Some (concat ps')" and lp: "line (slots ! k) = p"
    by (simp_all add: slot_holds_Cons)
  from read_line_holds [OF wfps] obtain sl where
    rl: "read_line (Some (concat ps')) MAX_LINE = Some sl" and hsl: "slot_holds sl ps'"
    by blast
  have ml: "min_line slots = Some (p, slots[k := sl])"
    using ms str lp fp rl wfp by (simp add: min_line_def c_str_id wf_line_no_NUL)
  have upd: "list_all2 slot_holds (slots[k := sl]) (pss[k := ps'])"
    using holds hsl by (rule list_all2_update_cong)
  have least: "p \<le> x" if "x \<in> set (concat pss)" for x
  proof -
    from that obtain ps where "ps \<in> set pss" and "x \<in> set ps"
      by auto
    then obtain j where j: "j < length pss" and x: "x \<in> set (pss ! j)"
      by (metis in_set_conv_nth)
    then obtain q qs where qj: "pss ! j = q # qs" by (cases "pss ! j") auto
    have hj: "slot_holds (slots ! j) (pss ! j)"
      using holds j len by (simp add: list_all2_nthD)
    with qj have wfq: "wf_line q" and lq: "line (slots ! j) = q" and "0 < len (slots ! j)"
      by (auto simp: slot_holds_Cons dest: wf_line_length)
    with le j len str lp have "strcmp p q \<le> 0" by auto
    with wfp wfq have "p \<le> q" by (simp add: strcmp_le_iff wf_line_no_NUL)
    moreover from sorted j have "sorted (pss ! j)" by simp
    with qj x have "q \<le> x" by auto
    ultimately show ?thesis by simp
  qed
  from ms k len pk ml upd least show ?thesis by auto
qed

lemma concat_update_Cons:
  assumes "k < length pss" and "pss ! k = p # ps'"
  shows "mset (concat pss) = add_mset p (mset (concat (pss[k := ps'])))"
proof -
  have "pss = take k pss @ (p # ps') # drop (Suc k) pss"
    using assms id_take_nth_drop [of k pss] by simp
  then have "concat pss = concat (take k pss) @ (p # ps') @ concat (drop (Suc k) pss)"
    by (metis concat.simps(2) concat_append)
  moreover have "concat (pss[k := ps']) = concat (take k pss) @ ps' @ concat (drop (Suc k) pss)"
    using assms(1) by (simp add: upd_conv_take_nth_drop)
  ultimately show ?thesis by simp
qed

lemma sort_extract_min:
  assumes "k < length pss" and "pss ! k = p # ps'" and "\<forall>x\<in>set (concat pss). p \<le> x"
  shows "sort (concat pss) = p # sort (concat (pss[k := ps']))"
proof (rule properties_for_sort)
  show "mset (p # sort (concat (pss[k := ps']))) = mset (concat pss)"
    using concat_update_Cons [OF assms(1,2)] by simp
  have "set_mset (mset (concat pss)) = set_mset (add_mset p (mset (concat (pss[k := ps']))))"
    using concat_update_Cons [OF assms(1,2)] by (simp only:)
  then have "set (concat pss) = insert p (set (concat (pss[k := ps'])))"
    by (simp only: set_mset_mset set_mset_add_mset_insert)
  then have "set (concat (pss[k := ps'])) \<subseteq> set (concat pss)"
    by blast
  with assms(3) show "sorted (p # sort (concat (pss[k := ps'])))"
    by auto
qed

lemma merge_loop_sorted:
  assumes "list_all2 slot_holds slots pss" and "\<forall>ps\<in>set pss. sorted ps"
  shows "merge_loop slots = Some (concat (sort (concat pss)))"
  using assms
proof (induction "length (concat pss)" arbitrary: slots pss rule: less_induct)
  case less
  show ?case
  proof (cases "not_all_done slots")
    case False
    have "ps = []" if "ps \<in> set pss" for ps
    proof -
      from that obtain i where i: "i < length pss" and ps: "pss ! i = ps"
        by (auto simp: in_set_conv_nth)
      from less.prems(1) have len: "length slots = length pss"
        by (rule list_all2_lengthD)
      with i less.prems(1) have "slot_holds (slots ! i) (pss ! i)"
        by (simp add: list_all2_nthD)
      moreover from False i len have "\<not> 0 < len (slots ! i)"
        by (auto simp: not_all_done_iff)
      ultimately show ?thesis using ps by (simp add: slot_holds_len)
    qed
    then have c: "concat pss = []" by simp
    have "concat (sort (concat pss)) = []"
      unfolding c by simp
    with False show ?thesis
      by (simp only: merge_loop.simps [of slots] if_False)
  next
    case True
    from min_line_step [OF less.prems True] obtain k p ps' slots' where
      k: "k < length pss" and pk: "pss ! k = p # ps'"
      and ml: "min_line slots = Some (p, slots')"
      and holds': "list_all2 slot_holds slots' (pss[k := ps'])"
      and least: "\<forall>x\<in>set (concat pss). p \<le> x"
      by blast
    have sort: "sort (concat pss) = p # sort (concat (pss[k := ps']))"
      using k pk least by (rule sort_extract_min)
    have "size (mset (concat pss)) = Suc (size (mset (concat (pss[k := ps']))))"
      using concat_update_Cons [OF k pk] by simp
    then have shorter: "length (concat (pss[k := ps'])) < length (concat pss)"
      by simp
    have sorted': "\<forall>ps\<in>set (pss[k := ps']). sorted ps"
    proof
      fix ps assume "ps \<in> set (pss[k := ps'])"
      then have "ps = ps' \<or> ps \<in> set pss"
        using set_update_subset_insert [of pss k ps'] by auto
      moreover from less.prems(2) k pk have "sorted (p # ps')"
        by (metis nth_mem)
      ultimately show "sorted ps" using less.prems(2) by auto
    qed
    from less.hyps [OF shorter holds' sorted']
    have "merge_loop slots' = Some (concat (sort (concat (pss[k := ps']))))" .
    with True ml sort show ?thesis
      by (simp add: merge_loop.simps [of slots])
  qed
qed

lemma merge_sorted:
  assumes "\<forall>ps\<in>set pss. sorted ps \<and> (\<forall>l\<in>set ps. wf_line l)"
  shows "merge (map concat pss) = Some (concat (sort (concat pss)))"
proof -
  from assms preload_holds [of pss] obtain slots where
    "preload (map (\<lambda>ps. Some (concat ps)) pss) = Some slots" "list_all2 slot_holds slots pss"
    by auto
  moreover from assms have "\<forall>ps\<in>set pss. sorted ps" by simp
  ultimately show ?thesis
    by (simp add: merge_def comp_def merge_loop_sorted)
qed

subsection \<open>The merge does not fault\<close>

definition open_heads :: "slot list \<Rightarrow> bool" where
  "open_heads slots \<longleftrightarrow> (\<forall>sl\<in>set slots. 0 < len sl \<longrightarrow> fp_from sl \<noteq> None)"

lemma read_line_open:
  "read_line (Some s) MAX_LINE = Some sl \<Longrightarrow> 0 < len sl \<longrightarrow> fp_from sl \<noteq> None"
  by (auto simp: read_line_def split: option.splits)

lemma read_line_Some: "\<exists>sl. read_line (Some s) MAX_LINE = Some sl"
  by (auto simp: read_line_def split: option.splits)

lemma min_line_open:
  assumes "open_heads slots" and "not_all_done slots"
  shows "\<exists>out slots'. min_line slots = Some (out, slots') \<and> open_heads slots'"
proof -
  from min_search_found [OF assms(2)] obtain k min_str where
    ms: "min_search slots = (k, Some min_str)" and k: "k < length slots"
    and pos: "0 < len (slots ! k)"
    by blast
  from assms(1) k pos obtain s where fp: "fp_from (slots ! k) = Some s"
    by (auto simp: open_heads_def)
  from read_line_Some [of s] obtain sl where rl: "read_line (Some s) MAX_LINE = Some sl"
    by blast
  have "open_heads (slots[k := sl])"
    unfolding open_heads_def
  proof
    fix x assume "x \<in> set (slots[k := sl])"
    then have "x = sl \<or> x \<in> set slots"
      using set_update_subset_insert [of slots k sl] by auto
    with assms(1) read_line_open [OF rl] show "0 < len x \<longrightarrow> fp_from x \<noteq> None"
      by (auto simp: open_heads_def)
  qed
  with ms fp rl show ?thesis by (simp add: min_line_def)
qed

lemma merge_loop_total: "open_heads slots \<Longrightarrow> \<exists>bytes. merge_loop slots = Some bytes"
proof (induction slots rule: merge_loop.induct)
  case (1 slots)
  show ?case
  proof (cases "not_all_done slots")
    case False
    then show ?thesis by (simp add: merge_loop.simps [of slots])
  next
    case True
    from min_line_open [OF "1.prems" True] obtain out slots' where
      ml: "min_line slots = Some (out, slots')" and "open_heads slots'"
      by blast
    with "1.IH" [OF True ml refl] obtain bytes where "merge_loop slots' = Some bytes"
      by blast
    with True ml show ?thesis by (simp add: merge_loop.simps [of slots])
  qed
qed

lemma preload_total:
  "\<exists>slots. preload (map Some from_kids) = Some slots \<and> open_heads slots \<and>
     length slots = length from_kids"
proof (induction from_kids)
  case Nil
  then show ?case by (simp add: open_heads_def)
next
  case (Cons s from_kids)
  then obtain slots where "preload (map Some from_kids) = Some slots" "open_heads slots"
    "length slots = length from_kids"
    by blast
  moreover from read_line_Some [of s] obtain sl where "read_line (Some s) MAX_LINE = Some sl"
    by blast
  ultimately show ?case
    using read_line_open [of s sl] by (auto simp: open_heads_def)
qed

lemma merge_total: "\<exists>bytes. merge from_kids = Some bytes"
proof -
  from preload_total [of from_kids] obtain slots where
    "preload (map Some from_kids) = Some slots" "open_heads slots"
    by blast
  then show ?thesis
    using merge_loop_total [of slots] by (simp add: merge_def)
qed

section \<open>The coordinator: \<^verbatim>\<open>main\<close>\<close>

text \<open>
  What the operating system does for the coordinator is part of the world it runs in: for
  child \<open>i\<close>, the results of the two \<^verbatim>\<open>pipe\<close> calls and of \<^verbatim>\<open>fork\<close> (in the parent: the
  child's process id, or a negative number) and the line at which the child runs out of
  memory, if any; the process ids that the calls of \<^verbatim>\<open>waitpid\<close> return, in order, before
  the call that returns \<open>-1\<close>. \<^verbatim>\<open>waitpid\<close> also stores the child's status into a variable
  that \<^verbatim>\<open>wait_for_kids\<close> never reads.
\<close>

record kid_env =
  pipe1_rc :: int
  pipe2_rc :: int
  fork_rc :: int
  oom :: "nat option"

record world =
  stdin :: string
  kid_env :: "nat \<Rightarrow> kid_env"
  waited :: "int list"

definition NUM_KIDS :: nat where
  "NUM_KIDS = 5"

text \<open>\<^verbatim>\<open>make_kid\<close> in the parent: \<open>None\<close> for the return value \<open>-1\<close>, else \<^verbatim>\<open>kid->pid\<close>.\<close>

definition make_kid :: "kid_env \<Rightarrow> int option" where
  "make_kid e =
     (if pipe1_rc e \<noteq> 0 then None
      else if pipe2_rc e \<noteq> 0 then None
      else if fork_rc e < 0 then None
      else Some (fork_rc e))"

text \<open>The messages of \<^verbatim>\<open>err_exit\<close> in the coordinator, each with the number it prints.\<close>

datatype diag = Fault_starting_child nat | Child_died_untracked int

text \<open>The first loop of \<^verbatim>\<open>main\<close>, from child \<open>i\<close> on: the process ids, or the message.\<close>

fun start_kids :: "nat \<Rightarrow> kid_env list \<Rightarrow> diag + int list" where
  "start_kids i [] = Inr []"
| "start_kids i (e # es) =
     (case make_kid e of
        None \<Rightarrow> Inl (Fault_starting_child i)
      | Some pid \<Rightarrow>
          (case start_kids (i + 1) es of
             Inl d \<Rightarrow> Inl d
           | Inr pids \<Rightarrow> Inr (pid # pids)))"

text \<open>
  \<^verbatim>\<open>wait_for_kids\<close>: every process id that \<^verbatim>\<open>waitpid\<close> returns is replaced by \<open>-1\<close> in
  the table; the check loop then reports the first entry that is not \<open>-1\<close>.
\<close>

definition reap :: "int \<Rightarrow> int list \<Rightarrow> int list" where
  "reap pid pids = map (\<lambda>p. if pid = p then - 1 else p) pids"

definition wait_for_kids :: "int list \<Rightarrow> int list \<Rightarrow> diag option" where
  "wait_for_kids ws pids =
     (case filter (\<lambda>p. p \<noteq> - 1) (fold reap ws pids) of
        [] \<Rightarrow> None
      | p # ps \<Rightarrow> Some (Child_died_untracked p))"

text \<open>
  The workers run on what \<^verbatim>\<open>distribute\<close> wrote to them: for each its standard output and
  its exit status.
\<close>

definition run_kids :: "nat \<Rightarrow> (nat \<Rightarrow> nat option) \<Rightarrow> string list \<Rightarrow> (string \<times> int) list" where
  "run_kids nkids ooms to_kids = map (\<lambda>i. be_childish (ooms i) (to_kids ! i)) [0..<nkids]"

text \<open>
  From the coordinator's standard input to its standard output, with \<open>nkids\<close> workers.
  The processes run side by side, but what each of them writes depends only on what it
  reads, and a worker writes nothing before it has read its whole input: the streams are
  those of running \<^verbatim>\<open>distribute\<close>, the workers and \<^verbatim>\<open>merge\<close> one after the other, as
  long as no process waits for ever on a full or an empty pipe. The waiting is not part
  of this definition; the section on the pipeline as processes models it.
\<close>

definition sort_pipeline :: "nat \<Rightarrow> (nat \<Rightarrow> nat option) \<Rightarrow> string \<Rightarrow> string option" where
  "sort_pipeline nkids ooms inp =
     (case distribute nkids inp of
        None \<Rightarrow> None
      | Some to_kids \<Rightarrow> merge (map fst (run_kids nkids ooms to_kids)))"

text \<open>
  The coordinator's standard output, the message of \<^verbatim>\<open>err_exit\<close> if it was called, and
  the exit status.
\<close>

record outcome =
  out :: string
  err :: "diag option"
  status :: int

definition main :: "world \<Rightarrow> outcome option" where
  "main w =
     (case start_kids 0 (map (kid_env w) [0..<NUM_KIDS]) of
        Inl d \<Rightarrow> Some \<lparr>out = [], err = Some d, status = 1\<rparr>
      | Inr pids \<Rightarrow>
          (case sort_pipeline NUM_KIDS (\<lambda>i. oom (kid_env w i)) (stdin w) of
             None \<Rightarrow> None
           | Some bytes \<Rightarrow>
               (case wait_for_kids (waited w) pids of
                  Some d \<Rightarrow> Some \<lparr>out = bytes, err = Some d, status = 1\<rparr>
                | None \<Rightarrow> Some \<lparr>out = bytes, err = None, status = 0\<rparr>)))"

text \<open>The exit statuses of the workers in the world \<open>w\<close>.\<close>

definition kid_statuses :: "world \<Rightarrow> int list" where
  "kid_statuses w =
     (case distribute NUM_KIDS (stdin w) of
        None \<Rightarrow> []
      | Some to_kids \<Rightarrow> map snd (run_kids NUM_KIDS (\<lambda>i. oom (kid_env w i)) to_kids))"

section \<open>The whole pipeline\<close>

lemma sort_mset_cong: "mset xs = mset ys \<Longrightarrow> sort xs = sort (ys :: 'a :: linorder list)"
  by (rule properties_for_sort) simp_all

lemma filter_mset_classes:
  "(\<Sum>i\<leftarrow>[0..<N]. filter_mset (\<lambda>k. g k = i) M) = filter_mset (\<lambda>k. g k < N) M"
proof (induction N)
  case 0
  then show ?case by simp
next
  case (Suc N)
  have "filter_mset (\<lambda>k. g k < Suc N) M =
      filter_mset (\<lambda>k. g k < N) M + filter_mset (\<lambda>k. g k = N) M"
    by (rule multiset_eqI) (auto simp: less_Suc_eq)
  with Suc show ?case by simp
qed

lemma image_mset_sum_list:
  "image_mset f (\<Sum>i\<leftarrow>xs. g i) = (\<Sum>i\<leftarrow>xs. image_mset f (g i))"
  by (induction xs) simp_all

lemma mset_shares:
  assumes "0 < nkids"
  shows "mset (concat (map (\<lambda>i. map f (filter (\<lambda>k. k mod nkids = i) [0..<n])) [0..<nkids])) =
    mset (map f [0..<n])"
proof -
  have "mset (concat (map (\<lambda>i. map f (filter (\<lambda>k. k mod nkids = i) [0..<n])) [0..<nkids])) =
      (\<Sum>i\<leftarrow>[0..<nkids]. image_mset f (filter_mset (\<lambda>k. k mod nkids = i) (mset [0..<n])))"
    by (simp add: mset_concat comp_def)
  also have "\<dots> = image_mset f (\<Sum>i\<leftarrow>[0..<nkids]. filter_mset (\<lambda>k. k mod nkids = i) (mset [0..<n]))"
    by (simp only: image_mset_sum_list)
  also have "\<dots> = image_mset f (filter_mset (\<lambda>k. k mod nkids < nkids) (mset [0..<n]))"
    by (simp only: filter_mset_classes)
  also have "\<dots> = mset (map f [0..<n])"
    using assms by simp
  finally show ?thesis .
qed

lemma sort_pipeline_wf_lines:
  assumes nkids: "0 < nkids" and wf: "\<forall>l\<in>set ls. wf_line l"
  shows "sort_pipeline nkids (\<lambda>i. None) (concat ls) = Some (concat (sort ls))"
proof -
  define sh where "sh i = map (\<lambda>k. ls ! k) (filter (\<lambda>k. k mod nkids = i) [0..<length ls])" for i
  have wf_sh: "\<forall>l\<in>set (sh i). wf_line l" for i
    using wf by (auto simp: sh_def)
  have "map (\<lambda>k. c_str (ls ! k)) (filter (\<lambda>k. k mod nkids = i) [0..<length ls]) = sh i" for i
    unfolding sh_def using wf by (auto simp: c_str_id wf_line_no_NUL)
  then have d: "distribute nkids (concat ls) = Some (map (\<lambda>i. concat (sh i)) [0..<nkids])"
    using distribute_loop_cursor [OF nkids, of "concat ls"] wf
    by (simp add: distribute_def share_round_robin fgets_all_wf_lines)
  have "run_kids nkids (\<lambda>i. None) (map (\<lambda>i. concat (sh i)) [0..<nkids]) =
      map (\<lambda>i. (concat (sort (sh i)), 0)) [0..<nkids]"
    unfolding run_kids_def using wf_sh by (simp add: be_childish_wf_lines)
  then have r: "map fst (run_kids nkids (\<lambda>i. None) (map (\<lambda>i. concat (sh i)) [0..<nkids])) =
      map concat (map (\<lambda>i. sort (sh i)) [0..<nkids])"
    by (simp add: comp_def)
  have "\<forall>ps\<in>set (map (\<lambda>i. sort (sh i)) [0..<nkids]). sorted ps \<and> (\<forall>l\<in>set ps. wf_line l)"
    using wf_sh by auto
  then have m: "merge (map concat (map (\<lambda>i. sort (sh i)) [0..<nkids])) =
      Some (concat (sort (concat (map (\<lambda>i. sort (sh i)) [0..<nkids]))))"
    by (rule merge_sorted)
  have "mset (concat (map (\<lambda>i. sort (sh i)) [0..<nkids])) =
      mset (concat (map sh [0..<nkids]))"
    by (simp add: mset_concat comp_def)
  also have "\<dots> = mset (map (\<lambda>k. ls ! k) [0..<length ls])"
    unfolding sh_def using nkids by (rule mset_shares)
  also have "\<dots> = mset ls"
    by (simp add: map_nth)
  finally have "sort (concat (map (\<lambda>i. sort (sh i)) [0..<nkids])) = sort ls"
    by (rule sort_mset_cong)
  with d r m show ?thesis
    by (simp add: sort_pipeline_def)
qed


lemma make_kid_Some: "make_kid e \<noteq> None \<Longrightarrow> make_kid e = Some (fork_rc e)"
  by (simp add: make_kid_def split: if_splits)

lemma start_kids_ok:
  "\<forall>e\<in>set es. make_kid e \<noteq> None \<Longrightarrow> start_kids i es = Inr (map fork_rc es)"
  by (induction es arbitrary: i) (simp_all add: make_kid_Some)

lemma start_kids_fail:
  "\<forall>e\<in>set es. make_kid e \<noteq> None \<Longrightarrow> make_kid e' = None \<Longrightarrow>
   start_kids i (es @ e' # es') = Inl (Fault_starting_child (i + length es))"
  by (induction es arbitrary: i) (simp_all add: make_kid_Some)

lemma sorted_wrt_strcmp:
  "\<forall>x\<in>set xs. NUL \<notin> set x \<Longrightarrow> sorted_wrt (\<lambda>a b. strcmp a b \<le> 0) xs \<longleftrightarrow> sorted xs"
  by (induction xs) (auto simp: strcmp_le_iff)

text \<open>
  The pipeline on streams. Let the input be a finite sequence of well-formed lines: each
  without NUL bytes, ended by its only newline, and shorter than the buffer of \<open>MAX_LINE\<close>
  bytes. With at least one worker, and no worker out of memory, distributing the lines,
  sorting each worker's share and merging the sorted streams gives the input lines, each
  once for each of its occurrences, in non-decreasing order of \<^verbatim>\<open>strcmp\<close>: the byte-wise
  lexicographic order of the lines. This is what the processes write when none of them
  waits for ever on a pipe; the section on the pipeline as processes has an input on
  which they do.
\<close>

lemma sort_pipeline_sorts:
  assumes "\<forall>l\<in>set ls. wf_line l"
  shows "(0 < nkids \<longrightarrow> sort_pipeline nkids (\<lambda>i. None) (concat ls) = Some (concat (sort ls))) \<and>
    mset (sort ls) = mset ls \<and>
    sorted_wrt (\<lambda>a b. strcmp a b \<le> 0) (sort ls) \<and>
    (stdin w = concat ls \<and>
     (\<forall>i<NUM_KIDS. make_kid (kid_env w i) \<noteq> None \<and> oom (kid_env w i) = None) \<longrightarrow>
       (\<exists>oc. main w = Some oc \<and> out oc = concat (sort ls)))"
proof -
  have a: "sort_pipeline nkids (\<lambda>i. None) (concat ls) = Some (concat (sort ls))" if "0 < nkids"
    using that assms by (rule sort_pipeline_wf_lines)
  have "\<forall>x\<in>set (sort ls). NUL \<notin> set x"
    using assms by (simp add: wf_line_no_NUL)
  then have b: "sorted_wrt (\<lambda>a b. strcmp a b \<le> 0) (sort ls)"
    by (simp add: sorted_wrt_strcmp)
  have c: "\<exists>oc. main w = Some oc \<and> out oc = concat (sort ls)"
    if inp: "stdin w = concat ls"
      and ok: "\<forall>i<NUM_KIDS. make_kid (kid_env w i) \<noteq> None \<and> oom (kid_env w i) = None"
  proof -
    from ok have "\<forall>e\<in>set (map (kid_env w) [0..<NUM_KIDS]). make_kid e \<noteq> None"
      by simp
    then have s: "start_kids 0 (map (kid_env w) [0..<NUM_KIDS]) =
        Inr (map fork_rc (map (kid_env w) [0..<NUM_KIDS]))"
      by (rule start_kids_ok)
    have "0 < NUM_KIDS" by (simp add: NUM_KIDS_def)
    then have "sort_pipeline NUM_KIDS (\<lambda>i. None) (concat ls) = Some (concat (sort ls))"
      using assms by (rule sort_pipeline_wf_lines)
    moreover have "run_kids NUM_KIDS (\<lambda>i. oom (kid_env w i)) to_kids =
        run_kids NUM_KIDS (\<lambda>i. None) to_kids" for to_kids
      using ok by (simp add: run_kids_def)
    ultimately have "sort_pipeline NUM_KIDS (\<lambda>i. oom (kid_env w i)) (stdin w) =
        Some (concat (sort ls))"
      using inp by (simp add: sort_pipeline_def split: option.splits)
    with s show ?thesis
      by (simp add: main_def split: option.splits)
  qed
  from a b c show ?thesis by simp
qed

subsection \<open>Merging the workers' streams against sorting everything at once\<close>

text \<open>
  The specification's side of the comparison: the lines of all the shares, concatenated,
  sorted and written out.
\<close>

definition sort_directly :: "string list list \<Rightarrow> string" where
  "sort_directly shares = concat (sort (concat shares))"

text \<open>
  Claim C4. For any number of workers and any assignment of well-formed lines to them,
  merging what the workers write, each having sorted its share, gives the same stream as
  one worker run on the concatenation of all the shares, and this is the sorted
  concatenation.
\<close>

theorem merge_refines_sort:
  assumes "\<forall>ls\<in>set shares. \<forall>l\<in>set ls. wf_line l"
  shows "merge (map (\<lambda>ls. fst (be_childish None (concat ls))) shares) =
      Some (fst (be_childish None (concat (map concat shares)))) \<and>
    fst (be_childish None (concat (map concat shares))) = sort_directly shares"
proof -
  have m: "map (\<lambda>ls. fst (be_childish None (concat ls))) shares = map concat (map sort shares)"
    using assms by (simp add: be_childish_wf_lines)
  have "\<forall>ps\<in>set (map sort shares). sorted ps \<and> (\<forall>l\<in>set ps. wf_line l)"
    using assms by auto
  then have g: "merge (map concat (map sort shares)) =
      Some (concat (sort (concat (map sort shares))))"
    by (rule merge_sorted)
  have "mset (concat (map sort shares)) = mset (concat shares)"
    by (simp add: mset_concat comp_def)
  then have e: "sort (concat (map sort shares)) = sort (concat shares)"
    by (rule sort_mset_cong)
  have c: "concat (map concat shares) = concat (concat shares)"
    by (induction shares) simp_all
  have "\<forall>l\<in>set (concat shares). wf_line l"
    using assms by auto
  then have b: "be_childish None (concat (concat shares)) = (concat (sort (concat shares)), 0)"
    by (rule be_childish_wf_lines)
  show ?thesis
    unfolding m g e c b sort_directly_def by simp
qed

text \<open>The theorem at two workers with the shares \<open>b\<close>, \<open>a\<close> and \<open>c\<close>, \<open>a\<close>.\<close>

theorem merge_refines_sort_witness:
  "merge (map (\<lambda>ls. fst (be_childish None (concat ls))) [[''b\<newline>'', ''a\<newline>''], [''c\<newline>'', ''a\<newline>'']]) =
     Some ''a\<newline>a\<newline>b\<newline>c\<newline>''"
proof -
  have h: "\<forall>ls\<in>set [[''b\<newline>'', ''a\<newline>''], [''c\<newline>'', ''a\<newline>'']]. \<forall>l\<in>set ls. wf_line l"
    by (simp add: wf_line_def newline_def NUL_def MAX_LINE_def)
  have s: "sort_directly [[''b\<newline>'', ''a\<newline>''], [''c\<newline>'', ''a\<newline>'']] = ''a\<newline>a\<newline>b\<newline>c\<newline>''"
    by code_simp
  from merge_refines_sort [OF h] show ?thesis
    by (simp only: s)
qed

subsection \<open>A last line without its newline\<close>

text \<open>
  The lines must end in a newline for the results above: \<^verbatim>\<open>fputs\<close> adds none, so a
  last input line that lacks it is written right before the line that follows it in the
  sorted order, and the two are read as one line from then on.
\<close>

lemma unterminated_last_line:
  "sort_pipeline 2 (\<lambda>i. None) ''z\<newline>b\<newline>a'' = Some ''az\<newline>b\<newline>'' \<and>
   be_childish None ''z\<newline>b\<newline>a'' = (''ab\<newline>z\<newline>'', 0)"
  by code_simp

section \<open>The exit status of the coordinator\<close>

lemma fold_reap: "fold reap ws pids = map (\<lambda>p. if p \<in> set ws then - 1 else p) pids"
proof (induction ws arbitrary: pids)
  case Nil
  then show ?case by simp
next
  case (Cons w ws)
  have "fold reap (w # ws) pids = fold reap ws (reap w pids)"
    by simp
  also have "\<dots> = map (\<lambda>p. if p \<in> set ws then - 1 else p) (reap w pids)"
    by (rule Cons.IH)
  also have "\<dots> = map (\<lambda>p. if p \<in> set (w # ws) then - 1 else p) pids"
    by (auto simp: reap_def)
  finally show ?case .
qed

lemma wait_for_kids_all_reaped:
  assumes "\<forall>p\<in>set pids. p \<in> set ws"
  shows "wait_for_kids ws pids = None"
proof -
  have "filter (\<lambda>p. p \<noteq> - 1) (fold reap ws pids) = []"
    using assms by (simp add: fold_reap filter_empty_conv)
  then show ?thesis by (simp add: wait_for_kids_def)
qed

lemma distribute_total: "0 < nkids \<Longrightarrow> \<exists>to_kids. distribute nkids inp = Some to_kids"
  using distribute_loop_cursor [of 0 nkids inp] by (simp add: distribute_def)

lemma sort_pipeline_total: "0 < nkids \<Longrightarrow> \<exists>bytes. sort_pipeline nkids ooms inp = Some bytes"
  using distribute_total [of nkids inp] merge_total
  by (auto simp: sort_pipeline_def)

lemma main_all_reaped:
  assumes started: "\<forall>i<NUM_KIDS. make_kid (kid_env w i) \<noteq> None"
    and reaped: "\<forall>i<NUM_KIDS. fork_rc (kid_env w i) \<in> set (waited w)"
  shows "\<exists>bytes. sort_pipeline NUM_KIDS (\<lambda>i. oom (kid_env w i)) (stdin w) = Some bytes \<and>
    main w = Some \<lparr>out = bytes, err = None, status = 0\<rparr>"
proof -
  from started have "\<forall>e\<in>set (map (kid_env w) [0..<NUM_KIDS]). make_kid e \<noteq> None"
    by simp
  then have s: "start_kids 0 (map (kid_env w) [0..<NUM_KIDS]) =
      Inr (map fork_rc (map (kid_env w) [0..<NUM_KIDS]))"
    by (rule start_kids_ok)
  have "0 < NUM_KIDS" by (simp add: NUM_KIDS_def)
  then obtain bytes where
    p: "sort_pipeline NUM_KIDS (\<lambda>i. oom (kid_env w i)) (stdin w) = Some bytes"
    using sort_pipeline_total by blast
  from reaped have "\<forall>p\<in>set (map fork_rc (map (kid_env w) [0..<NUM_KIDS])). p \<in> set (waited w)"
    by simp
  then have "wait_for_kids (waited w) (map fork_rc (map (kid_env w) [0..<NUM_KIDS])) = None"
    by (rule wait_for_kids_all_reaped)
  with s p show ?thesis by (simp add: main_def)
qed

lemma main_start_fault:
  assumes k: "k < NUM_KIDS" and fail: "make_kid (kid_env w k) = None"
    and before: "\<forall>i<k. make_kid (kid_env w i) \<noteq> None"
  shows "main w = Some \<lparr>out = [], err = Some (Fault_starting_child k), status = 1\<rparr>"
proof -
  have "[0..<k + (NUM_KIDS - k)] = [0..<k] @ [k..<k + (NUM_KIDS - k)]"
    by (rule upt_add_eq_append) simp
  moreover have "[k..<k + (NUM_KIDS - k)] = k # [Suc k..<NUM_KIDS]"
    using k by (simp add: upt_conv_Cons)
  ultimately have "[0..<NUM_KIDS] = [0..<k] @ k # [Suc k..<NUM_KIDS]"
    using k by simp
  then have "map (kid_env w) [0..<NUM_KIDS] =
      map (kid_env w) [0..<k] @ kid_env w k # map (kid_env w) [Suc k..<NUM_KIDS]"
    by simp
  moreover have "\<forall>e\<in>set (map (kid_env w) [0..<k]). make_kid e \<noteq> None"
    using before by simp
  ultimately have "start_kids 0 (map (kid_env w) [0..<NUM_KIDS]) =
      Inl (Fault_starting_child (0 + length (map (kid_env w) [0..<k])))"
    using fail by (simp only: start_kids_fail)
  then show ?thesis by (simp add: main_def)
qed

text \<open>
  A world in which the only input line goes to worker 0, and worker 0 cannot allocate
  memory for it: that worker leaves through \<^verbatim>\<open>err_exit\<close> with status 1 and no output.
\<close>

definition w_oom :: world where
  "w_oom = \<lparr>stdin = ''a\<newline>'',
     kid_env = (\<lambda>i. \<lparr>pipe1_rc = 0, pipe2_rc = 0, fork_rc = 100 + int i,
                     oom = (if i = 0 then Some 0 else None)\<rparr>),
     waited = [104, 100, 101, 103, 102]\<rparr>"

text \<open>
  Claim C2, as amended. The coordinator exits with status 0 whenever the five workers
  were started and \<^verbatim>\<open>waitpid\<close> has returned the process id of each, whatever the workers'
  exit statuses are; and when a worker fails to start (the workers before it having
  started) it exits with status 1 and the message that carries that worker's number.
\<close>

theorem coordinator_exit_status:
  "((\<forall>i<NUM_KIDS. make_kid (kid_env w i) \<noteq> None) \<and>
    (\<forall>i<NUM_KIDS. fork_rc (kid_env w i) \<in> set (waited w)) \<longrightarrow>
      (\<exists>bytes. main w = Some \<lparr>out = bytes, err = None, status = 0\<rparr>)) \<and>
   (k < NUM_KIDS \<and> make_kid (kid_env w k) = None \<and> (\<forall>i<k. make_kid (kid_env w i) \<noteq> None) \<longrightarrow>
      main w = Some \<lparr>out = [], err = Some (Fault_starting_child k), status = 1\<rparr>)"
  using main_all_reaped [of w] main_start_fault [of k w] by blast

text \<open>
  The theorem in two worlds: the one above, and the same world with the second \<^verbatim>\<open>pipe\<close>
  call failing for worker 3.
\<close>

theorem coordinator_exit_status_witness:
  "main w_oom = Some \<lparr>out = [], err = None, status = 0\<rparr> \<and>
   main (w_oom\<lparr>kid_env := (kid_env w_oom)(3 := (kid_env w_oom 3)\<lparr>pipe2_rc := - 1\<rparr>)\<rparr>) =
     Some \<lparr>out = [], err = Some (Fault_starting_child 3), status = 1\<rparr>"
proof -
  let ?w = "w_oom\<lparr>kid_env := (kid_env w_oom)(3 := (kid_env w_oom 3)\<lparr>pipe2_rc := - 1\<rparr>)\<rparr>"
  have a1: "\<forall>i<NUM_KIDS. make_kid (kid_env w_oom i) \<noteq> None"
    by (simp add: w_oom_def make_kid_def)
  have a2: "\<forall>i<NUM_KIDS. fork_rc (kid_env w_oom i) \<in> set (waited w_oom)"
    by (auto simp: w_oom_def NUM_KIDS_def less_Suc_eq numeral_eq_Suc)
  have b1: "3 < NUM_KIDS" by (simp add: NUM_KIDS_def)
  have b2: "make_kid (kid_env ?w 3) = None"
    by (simp add: w_oom_def make_kid_def)
  have b3: "\<forall>i<3. make_kid (kid_env ?w i) \<noteq> None"
    by (simp add: w_oom_def make_kid_def)
  have e: "main w_oom = Some \<lparr>out = [], err = None, status = 0\<rparr>"
    by code_simp
  from coordinator_exit_status [of w_oom 0] coordinator_exit_status [of ?w 3] a1 a2 b1 b2 b3 e
  show ?thesis by simp
qed

text \<open>
  Claim C2 as stated fails: in the world above worker 0 exits with status 1, and the
  coordinator writes no message and exits with status 0 (the input line is lost).
\<close>

theorem worker_failure_unreported_counterexample:
  "kid_statuses w_oom = [1, 0, 0, 0, 0] \<and>
   main w_oom = Some \<lparr>out = [], err = None, status = 0\<rparr>"
  by code_simp


section \<open>Empty input\<close>

lemma distribute_Nil: "distribute nkids [] = Some (replicate nkids [])"
  by (simp add: distribute_def distribute_loop.simps [of _ _ "[]"] share_def map_replicate_trivial)

lemma be_childish_Nil: "be_childish oom_at [] = ([], 0)"
  by (simp add: be_childish_def read_lines.simps [of _ _ "[]"] qsort_def)

lemma preload_closed:
  "preload (replicate n (Some [])) = Some (replicate n \<lparr>fp_from = None, line = [], len = - 1\<rparr>)"
  by (induction n) (simp_all add: read_line_def)

lemma merge_Nil: "merge (replicate n []) = Some []"
proof -
  have "\<not> not_all_done (replicate n \<lparr>fp_from = None, line = [], len = - 1\<rparr>)"
    by (simp add: not_all_done_set)
  then show ?thesis
    by (simp add: merge_def preload_closed merge_loop.simps)
qed

text \<open>
  Claim C7. With zero input lines \<^verbatim>\<open>distribute\<close> writes nothing to any worker before it
  closes the pipes, so every worker is at end of file from its first read; every worker
  writes nothing and exits with status 0; \<^verbatim>\<open>merge\<close> writes nothing; and the coordinator,
  its five workers started and reaped, writes nothing and exits with status 0.
\<close>

theorem empty_input:
  "distribute NUM_KIDS [] = Some (replicate NUM_KIDS []) \<and>
   run_kids NUM_KIDS ooms (replicate NUM_KIDS []) = replicate NUM_KIDS ([], 0) \<and>
   merge (map fst (replicate NUM_KIDS ([], 0))) = Some [] \<and>
   (stdin w = [] \<and> (\<forall>i<NUM_KIDS. make_kid (kid_env w i) \<noteq> None) \<and>
    (\<forall>i<NUM_KIDS. fork_rc (kid_env w i) \<in> set (waited w)) \<longrightarrow>
      main w = Some \<lparr>out = [], err = None, status = 0\<rparr>)"
proof -
  have r: "run_kids NUM_KIDS ooms (replicate NUM_KIDS []) = replicate NUM_KIDS ([], 0)" for ooms
  proof -
    have "map (\<lambda>i. be_childish (ooms i) (replicate NUM_KIDS [] ! i)) [0..<NUM_KIDS] =
        map (\<lambda>i. ([], 0)) [0..<NUM_KIDS]"
      by (rule map_cong) (simp_all add: be_childish_Nil)
    then show ?thesis
      by (simp add: run_kids_def map_replicate_trivial)
  qed
  have m: "merge (map fst (replicate NUM_KIDS ([], 0 :: int))) = Some []"
    by (simp add: merge_Nil)
  have "sort_pipeline NUM_KIDS ooms [] = Some []" for ooms
    by (simp add: sort_pipeline_def distribute_Nil r merge_Nil)
  then have "main w = Some \<lparr>out = [], err = None, status = 0\<rparr>"
    if "stdin w = []" "\<forall>i<NUM_KIDS. make_kid (kid_env w i) \<noteq> None"
      "\<forall>i<NUM_KIDS. fork_rc (kid_env w i) \<in> set (waited w)"
    using main_all_reaped [OF that(2,3)] that(1) by auto
  with r m show ?thesis
    by (simp add: distribute_Nil)
qed

text \<open>The theorem in a world with empty standard input.\<close>

theorem empty_input_witness:
  "main \<lparr>stdin = [],
      kid_env = (\<lambda>i. \<lparr>pipe1_rc = 0, pipe2_rc = 0, fork_rc = 7 + int i, oom = None\<rparr>),
      waited = [7, 8, 9, 10, 11]\<rparr> =
   Some \<lparr>out = [], err = None, status = 0\<rparr>"
proof -
  let ?w = "\<lparr>stdin = [],
      kid_env = (\<lambda>i. \<lparr>pipe1_rc = 0, pipe2_rc = 0, fork_rc = 7 + int i, oom = None\<rparr>),
      waited = [7, 8, 9, 10, 11]\<rparr>"
  have a1: "\<forall>i<NUM_KIDS. make_kid (kid_env ?w i) \<noteq> None"
    by (simp add: make_kid_def)
  have a2: "\<forall>i<NUM_KIDS. fork_rc (kid_env ?w i) \<in> set (waited ?w)"
    by (auto simp: NUM_KIDS_def less_Suc_eq numeral_eq_Suc)
  from empty_input [of "\<lambda>i. None" ?w] a1 a2 show ?thesis
    by simp
qed

section \<open>The merge frontier\<close>

text \<open>
  The states of the merger: after the preload, and after each pass through the loop of
  \<^verbatim>\<open>merge\<close>.
\<close>

inductive reachable :: "string list \<Rightarrow> slot list \<Rightarrow> bool" for from_kids :: "string list" where
  preloaded: "preload (map Some from_kids) = Some slots \<Longrightarrow> reachable from_kids slots"
| refilled: "reachable from_kids slots \<Longrightarrow> not_all_done slots \<Longrightarrow>
     min_line slots = Some (output, slots') \<Longrightarrow> reachable from_kids slots'"

text \<open>
  The lines of a worker's stream that the merger has not yet emitted: the one in the
  buffer, if there is one, and those still to be read from the pipe.
\<close>

definition pending :: "slot \<Rightarrow> string list" where
  "pending sl =
     (if 0 < len sl then [c_str (line sl)] else []) @
     (case fp_from sl of None \<Rightarrow> [] | Some s \<Rightarrow> map c_str (fgets_all s))"

text \<open>
  The frontier against the lines of the workers' streams: one slot for each worker; the
  lines not yet emitted are the rest of the worker's stream; a slot with a positive length
  buffers a single line, and no line not yet emitted from that worker is smaller; any other
  slot is closed, with nothing left to emit.
\<close>

definition frontier_ok :: "string list list \<Rightarrow> slot list \<Rightarrow> bool" where
  "frontier_ok streams slots \<longleftrightarrow>
     length slots = length streams \<and>
     (\<forall>i<length slots.
        suffix (pending (slots ! i)) (streams ! i) \<and>
        (if 0 < len (slots ! i)
         then wf_line (line (slots ! i)) \<and>
              (\<forall>l\<in>set (pending (slots ! i)). strcmp (line (slots ! i)) l \<le> 0)
         else fp_from (slots ! i) = None \<and> pending (slots ! i) = []))"

lemma pending_holds:
  assumes "slot_holds sl ps"
  shows "pending sl = ps"
proof (cases ps)
  case Nil
  with assms show ?thesis by (simp add: pending_def slot_holds_Nil)
next
  case (Cons p ps')
  with assms have "map c_str ps' = ps'" and "c_str p = p" and "fgets_all (concat ps') = ps'"
    by (simp_all add: slot_holds_Cons map_idI c_str_id wf_line_no_NUL fgets_all_wf_lines)
  with assms Cons show ?thesis
    by (auto simp: pending_def slot_holds_Cons)
qed

lemma preload_unique:
  assumes "\<forall>ps\<in>set pss. \<forall>l\<in>set ps. wf_line l"
    and "preload (map Some (map concat pss)) = Some slots"
  shows "list_all2 slot_holds slots pss"
  using preload_holds [OF assms(1)] assms(2) by (simp add: comp_def)

lemma reachable_holds:
  assumes wf: "\<forall>ps\<in>set streams. sorted ps \<and> (\<forall>l\<in>set ps. wf_line l)"
    and reach: "reachable (map concat streams) slots"
  shows "\<exists>pss. list_all2 slot_holds slots pss \<and> list_all2 suffix pss streams"
  using reach
proof (induction rule: reachable.induct)
  case (preloaded slots)
  with wf have "list_all2 slot_holds slots streams"
    by (simp add: preload_unique)
  moreover have "list_all2 suffix streams streams"
    by (simp add: list_all2_refl)
  ultimately show ?case by blast
next
  case (refilled slots out slots')
  then obtain pss where holds: "list_all2 slot_holds slots pss"
    and suf: "list_all2 suffix pss streams"
    by blast
  have sorted: "\<forall>ps\<in>set pss. sorted ps"
  proof
    fix ps assume "ps \<in> set pss"
    then obtain i where i: "i < length pss" and ps: "pss ! i = ps"
      by (metis in_set_conv_nth)
    with suf have "suffix ps (streams ! i)" and "i < length streams"
      by (auto simp: list_all2_conv_all_nth)
    with wf show "sorted ps"
      by (metis nth_mem sorted_antimono_suffix)
  qed
  from min_line_step [OF holds sorted refilled.hyps(2)] refilled.hyps(3)
  obtain k p ps' where k: "k < length pss" and pk: "pss ! k = p # ps'"
    and holds': "list_all2 slot_holds slots' (pss[k := ps'])"
    by auto
  from suf k pk have "suffix (p # ps') (streams ! k)"
    by (metis list_all2_nthD)
  then have "suffix ps' (streams ! k)"
    by (rule suffix_ConsD)
  with suf k have "list_all2 suffix (pss[k := ps']) streams"
    by (auto simp: list_all2_conv_all_nth nth_list_update)
  with holds' show ?case by blast
qed

lemma holds_frontier_ok:
  assumes wf: "\<forall>ps\<in>set streams. sorted ps"
    and holds: "list_all2 slot_holds slots pss" and suf: "list_all2 suffix pss streams"
  shows "frontier_ok streams slots"
proof -
  have len: "length slots = length pss" "length pss = length streams"
    using holds suf by (simp_all add: list_all2_lengthD)
  have "suffix (pending (slots ! i)) (streams ! i) \<and>
        (if 0 < len (slots ! i)
         then wf_line (line (slots ! i)) \<and>
              (\<forall>l\<in>set (pending (slots ! i)). strcmp (line (slots ! i)) l \<le> 0)
         else fp_from (slots ! i) = None \<and> pending (slots ! i) = [])"
    if i: "i < length slots" for i
  proof -
    from holds i have h: "slot_holds (slots ! i) (pss ! i)"
      by (rule list_all2_nthD)
    then have p: "pending (slots ! i) = pss ! i"
      by (rule pending_holds)
    from suf i len have s: "suffix (pss ! i) (streams ! i)"
      by (simp add: list_all2_nthD)
    from wf i len have "sorted (streams ! i)" by simp
    with s have sorted: "sorted (pss ! i)"
      by (rule sorted_antimono_suffix)
    show ?thesis
    proof (cases "pss ! i")
      case Nil
      with h p s show ?thesis by (simp add: slot_holds_Nil)
    next
      case (Cons q qs)
      with h have wfq: "wf_line q" and wfqs: "\<forall>l\<in>set qs. wf_line l"
        and lq: "line (slots ! i) = q" and pos: "0 < len (slots ! i)"
        by (auto simp: slot_holds_Cons dest: wf_line_length)
      have "strcmp q l \<le> 0" if "l \<in> set (q # qs)" for l
      proof -
        from that wfq wfqs have "wf_line l" by auto
        moreover from sorted Cons that have "q \<le> l" by auto
        ultimately show ?thesis
          using wfq by (simp add: strcmp_le_iff wf_line_no_NUL)
      qed
      with p s Cons wfq lq pos show ?thesis by simp
    qed
  qed
  with len show ?thesis by (simp add: frontier_ok_def)
qed

lemma min_line_keeps_exhausted:
  assumes "min_line slots = Some (output, slots')" and "i < length slots"
    and "len (slots ! i) \<le> 0"
  shows "slots' ! i = slots ! i"
proof -
  obtain k m where ms: "min_search slots = (k, m)" by (cases "min_search slots")
  with assms(1) obtain min_str where m: "m = Some min_str"
    by (cases m) (auto simp: min_line_def)
  from scanned_min_search [of slots] ms m have "0 < len (slots ! k)"
    by (auto simp: scanned_def)
  with assms(3) have "k \<noteq> i" by auto
  moreover from assms(1) ms m obtain sl where "slots' = slots[k := sl]"
    by (auto simp: min_line_def split: option.splits)
  ultimately show ?thesis by simp
qed

text \<open>
  Claim C8. Let the workers sort shares of well-formed lines. In every state the merger
  reaches there is one slot for each worker, with room for one line; the lines not yet
  emitted from a worker are the rest of its sorted stream; the buffered line of a worker
  that is not exhausted is a single line and the smallest of them; an exhausted worker's
  stream is closed with nothing left, and no later pass through the loop reads from it or
  changes its slot.
\<close>

theorem merge_frontier:
  assumes "\<forall>ls\<in>set shares. \<forall>l\<in>set ls. wf_line l"
    and "reachable (map (\<lambda>ls. fst (be_childish None (concat ls))) shares) slots"
  shows "frontier_ok (map (\<lambda>ls. fgets_all (fst (be_childish None (concat ls)))) shares) slots \<and>
    (\<forall>output slots' i. min_line slots = Some (output, slots') \<and> i < length slots \<and>
        len (slots ! i) \<le> 0 \<longrightarrow>
      slots' ! i = slots ! i \<and> fst (min_search slots) \<noteq> i)"
proof -
  have m: "map (\<lambda>ls. fst (be_childish None (concat ls))) shares = map concat (map sort shares)"
    using assms(1) by (simp add: be_childish_wf_lines)
  have f: "map (\<lambda>ls. fgets_all (fst (be_childish None (concat ls)))) shares = map sort shares"
    using assms(1) by (simp add: be_childish_wf_lines fgets_all_wf_lines)
  have wf: "\<forall>ps\<in>set (map sort shares). sorted ps \<and> (\<forall>l\<in>set ps. wf_line l)"
    using assms(1) by auto
  from assms(2) have "reachable (map concat (map sort shares)) slots"
    by (simp only: m)
  with wf obtain pss where "list_all2 slot_holds slots pss"
    and "list_all2 suffix pss (map sort shares)"
    using reachable_holds by blast
  moreover from wf have "\<forall>ps\<in>set (map sort shares). sorted ps" by simp
  ultimately have "frontier_ok (map sort shares) slots"
    by (rule holds_frontier_ok [rotated])
  moreover have "slots' ! i = slots ! i \<and> fst (min_search slots) \<noteq> i"
    if "min_line slots = Some (out, slots')" "i < length slots" "len (slots ! i) \<le> 0"
    for out slots' i
  proof -
    from that have "slots' ! i = slots ! i" by (rule min_line_keeps_exhausted)
    moreover have "fst (min_search slots) \<noteq> i"
    proof
      assume e: "fst (min_search slots) = i"
      obtain k m where ms: "min_search slots = (k, m)" by (cases "min_search slots")
      with that(1) obtain min_str where "m = Some min_str"
        by (cases m) (auto simp: min_line_def)
      with scanned_min_search [of slots] ms have "0 < len (slots ! k)"
        by (auto simp: scanned_def)
      with e ms that(3) show False by simp
    qed
    ultimately show ?thesis by simp
  qed
  ultimately show ?thesis
    by (simp only: f) blast
qed


text \<open>
  The theorem at two workers with the shares \<open>b\<close>, \<open>a\<close> and \<open>c\<close>, in the state after the
  first pass through the loop, which has emitted \<open>a\<close>.
\<close>

theorem merge_frontier_witness:
  "reachable (map (\<lambda>ls. fst (be_childish None (concat ls))) [[''b\<newline>'', ''a\<newline>''], [''c\<newline>'']])
     [\<lparr>fp_from = Some [], line = ''b\<newline>'', len = 2\<rparr>, \<lparr>fp_from = Some [], line = ''c\<newline>'', len = 2\<rparr>] \<and>
   frontier_ok [[''a\<newline>'', ''b\<newline>''], [''c\<newline>'']]
     [\<lparr>fp_from = Some [], line = ''b\<newline>'', len = 2\<rparr>, \<lparr>fp_from = Some [], line = ''c\<newline>'', len = 2\<rparr>]"
proof -
  let ?shares = "[[''b\<newline>'', ''a\<newline>''], [''c\<newline>'']]"
  let ?S0 = "[\<lparr>fp_from = Some ''b\<newline>'', line = ''a\<newline>'', len = 2\<rparr>, \<lparr>fp_from = Some [], line = ''c\<newline>'', len = 2\<rparr>]"
  let ?S1 = "[\<lparr>fp_from = Some [], line = ''b\<newline>'', len = 2\<rparr>, \<lparr>fp_from = Some [], line = ''c\<newline>'', len = 2\<rparr>]"
  have h: "\<forall>ls\<in>set ?shares. \<forall>l\<in>set ls. wf_line l"
    by (simp add: wf_line_def newline_def NUL_def MAX_LINE_def)
  have fk: "map (\<lambda>ls. fst (be_childish None (concat ls))) ?shares = [''a\<newline>b\<newline>'', ''c\<newline>'']"
    by code_simp
  have p: "preload (map Some [''a\<newline>b\<newline>'', ''c\<newline>'']) = Some ?S0"
    by code_simp
  have nd: "not_all_done ?S0" by simp
  have s: "min_line ?S0 = Some (''a\<newline>'', ?S1)"
    by code_simp
  have r: "reachable (map (\<lambda>ls. fst (be_childish None (concat ls))) ?shares) ?S1"
    unfolding fk by (rule reachable.refilled [OF reachable.preloaded [OF p] nd s])
  have st: "map (\<lambda>ls. fgets_all (fst (be_childish None (concat ls)))) ?shares =
      [[''a\<newline>'', ''b\<newline>''], [''c\<newline>'']]"
    by code_simp
  from merge_frontier [OF h r] have "frontier_ok [[''a\<newline>'', ''b\<newline>''], [''c\<newline>'']] ?S1"
    unfolding st by (rule conjunct1)
  with r show ?thesis by (rule conjI)
qed

subsection \<open>The selection among equal heads\<close>

lemma reachable_open_heads: "reachable from_kids slots \<Longrightarrow> open_heads slots"
proof (induction rule: reachable.induct)
  case (preloaded slots)
  with preload_total [of from_kids] show ?case by auto
next
  case (refilled slots out slots')
  with min_line_open [of slots] show ?case by auto
qed

text \<open>
  A minimal head: the buffered line of a worker that is not exhausted, not greater than
  the buffered line of any other such worker.
\<close>

definition minimal_head :: "slot list \<Rightarrow> nat \<Rightarrow> bool" where
  "minimal_head slots j \<longleftrightarrow>
     j < length slots \<and> 0 < len (slots ! j) \<and>
     (\<forall>i<length slots. 0 < len (slots ! i) \<longrightarrow> strcmp (line (slots ! j)) (line (slots ! i)) \<le> 0)"

text \<open>
  Claim C5. While some worker is not exhausted, the scan of \<^verbatim>\<open>min_line\<close> selects a minimal
  head, and among the workers whose heads are minimal (they compare equal) the one with
  the lowest index. In every state in which the stream of each buffered head is still
  open, as it is in every state the merger reaches, \<^verbatim>\<open>min_line\<close> then returns: it emits
  that head and refills that worker's slot by \<^verbatim>\<open>read_line\<close>, leaving the other slots as
  they are.
\<close>

theorem min_line_lowest_index:
  assumes "not_all_done slots"
  shows "minimal_head slots (fst (min_search slots)) \<and>
    (\<forall>j. minimal_head slots j \<longrightarrow> fst (min_search slots) \<le> j) \<and>
    (\<forall>output slots'. min_line slots = Some (output, slots') \<longrightarrow>
       output = c_str (line (slots ! fst (min_search slots))) \<and>
       read_line (fp_from (slots ! fst (min_search slots))) MAX_LINE
         = Some (slots' ! fst (min_search slots)) \<and>
       slots' = slots[fst (min_search slots) := slots' ! fst (min_search slots)]) \<and>
    (open_heads slots \<longrightarrow>
       (\<exists>sl. read_line (fp_from (slots ! fst (min_search slots))) MAX_LINE = Some sl \<and>
          min_line slots =
            Some (c_str (line (slots ! fst (min_search slots))),
                  slots[fst (min_search slots) := sl]))) \<and>
    (\<forall>from_kids. reachable from_kids slots \<longrightarrow> open_heads slots)"
proof -
  obtain k m where ms: "min_search slots = (k, m)" by (cases "min_search slots")
  from assms obtain i where "i < length slots" "0 < len (slots ! i)"
    by (auto simp: not_all_done_iff)
  then have "\<not> (\<forall>i<length slots. len (slots ! i) \<le> 0)" by auto
  with scanned_min_search [of slots] ms obtain min_str where m: "m = Some min_str"
    by (cases m) (auto simp: scanned_def)
  from scanned_min_search [of slots] ms m
  have k: "k < length slots" and pos: "0 < len (slots ! k)" and str: "min_str = line (slots ! k)"
    and le: "\<forall>i<length slots. 0 < len (slots ! i) \<longrightarrow> strcmp min_str (line (slots ! i)) \<le> 0"
    and lt: "\<forall>i<k. 0 < len (slots ! i) \<longrightarrow> 0 < strcmp (line (slots ! i)) min_str"
    by (auto simp: scanned_def)
  have a: "minimal_head slots k"
    using k pos str le by (simp add: minimal_head_def)
  have b: "k \<le> j" if "minimal_head slots j" for j
  proof (rule ccontr)
    assume "\<not> k \<le> j"
    then have "j < k" by simp
    moreover from that have "0 < len (slots ! j)" by (simp add: minimal_head_def)
    ultimately have "0 < strcmp (line (slots ! j)) (line (slots ! k))"
      using lt str by simp
    moreover from that k pos have "strcmp (line (slots ! j)) (line (slots ! k)) \<le> 0"
      by (simp add: minimal_head_def)
    ultimately show False by simp
  qed
  have c: "out = c_str (line (slots ! k)) \<and>
      read_line (fp_from (slots ! k)) MAX_LINE = Some (slots' ! k) \<and>
      slots' = slots[k := slots' ! k]"
    if "min_line slots = Some (out, slots')" for out slots'
    using that ms m str k by (auto simp: min_line_def split: option.splits)
  have d: "\<exists>sl. read_line (fp_from (slots ! k)) MAX_LINE = Some sl \<and>
      min_line slots = Some (c_str (line (slots ! k)), slots[k := sl])"
    if "open_heads slots"
  proof -
    from that k pos obtain s where fp: "fp_from (slots ! k) = Some s"
      by (auto simp: open_heads_def)
    from read_line_Some [of s] obtain sl where "read_line (Some s) MAX_LINE = Some sl"
      by blast
    with ms m str fp show ?thesis by (simp add: min_line_def)
  qed
  have e: "open_heads slots" if "reachable from_kids slots" for from_kids
    using that by (rule reachable_open_heads)
  from a b c d e ms show ?thesis by simp
qed

text \<open>
  The theorem in the state the preload reaches when the workers' streams are the lines
  \<open>b\<close>, \<open>a\<close> and \<open>a\<close>: the heads of workers 1 and 2 are both minimal, worker 1 is
  selected, its head is emitted and its slot refilled, here by the end of its stream.
\<close>

theorem min_line_lowest_index_witness:
  "reachable [''b\<newline>'', ''a\<newline>'', ''a\<newline>'']
     [\<lparr>fp_from = Some [], line = ''b\<newline>'', len = 2\<rparr>, \<lparr>fp_from = Some [], line = ''a\<newline>'', len = 2\<rparr>,
      \<lparr>fp_from = Some [], line = ''a\<newline>'', len = 2\<rparr>] \<and>
   minimal_head
     [\<lparr>fp_from = Some [], line = ''b\<newline>'', len = 2\<rparr>, \<lparr>fp_from = Some [], line = ''a\<newline>'', len = 2\<rparr>,
      \<lparr>fp_from = Some [], line = ''a\<newline>'', len = 2\<rparr>] 2 \<and>
   fst (min_search
     [\<lparr>fp_from = Some [], line = ''b\<newline>'', len = 2\<rparr>, \<lparr>fp_from = Some [], line = ''a\<newline>'', len = 2\<rparr>,
      \<lparr>fp_from = Some [], line = ''a\<newline>'', len = 2\<rparr>]) = 1 \<and>
   min_line
     [\<lparr>fp_from = Some [], line = ''b\<newline>'', len = 2\<rparr>, \<lparr>fp_from = Some [], line = ''a\<newline>'', len = 2\<rparr>,
      \<lparr>fp_from = Some [], line = ''a\<newline>'', len = 2\<rparr>] =
     Some (''a\<newline>'',
       [\<lparr>fp_from = Some [], line = ''b\<newline>'', len = 2\<rparr>, \<lparr>fp_from = None, line = [], len = - 1\<rparr>,
        \<lparr>fp_from = Some [], line = ''a\<newline>'', len = 2\<rparr>])"
proof -
  let ?S = "[\<lparr>fp_from = Some [], line = ''b\<newline>'', len = 2\<rparr>, \<lparr>fp_from = Some [], line = ''a\<newline>'', len = 2\<rparr>,
      \<lparr>fp_from = Some [], line = ''a\<newline>'', len = 2\<rparr>]"
  have p: "preload (map Some [''b\<newline>'', ''a\<newline>'', ''a\<newline>'']) = Some ?S"
    by code_simp
  have r: "reachable [''b\<newline>'', ''a\<newline>'', ''a\<newline>''] ?S"
    using p by (rule reachable.preloaded)
  have h: "not_all_done ?S" by simp
  have m2: "minimal_head ?S 2"
    by (simp add: minimal_head_def less_Suc_eq numeral_3_eq_3 byte_def)
  have e: "fst (min_search ?S) = 1" by code_simp
  have rl: "read_line (Some []) MAX_LINE = Some \<lparr>fp_from = None, line = [], len = - 1\<rparr>"
    by (simp add: read_line_def)
  have c: "c_str ''a\<newline>'' = ''a\<newline>''" by code_simp
  from min_line_lowest_index [OF h] r have "open_heads ?S" by blast
  with min_line_lowest_index [OF h] obtain sl where
    "read_line (fp_from (?S ! fst (min_search ?S))) MAX_LINE = Some sl"
    "min_line ?S = Some (c_str (line (?S ! fst (min_search ?S))), ?S[fst (min_search ?S) := sl])"
    by blast
  with e rl c have "min_line ?S = Some (''a\<newline>'',
       [\<lparr>fp_from = Some [], line = ''b\<newline>'', len = 2\<rparr>, \<lparr>fp_from = None, line = [], len = - 1\<rparr>,
        \<lparr>fp_from = Some [], line = ''a\<newline>'', len = 2\<rparr>])"
    by simp
  with r m2 e show ?thesis by simp
qed

section \<open>The pipeline as processes\<close>

subsection \<open>The descriptors the children inherit\<close>

text \<open>
  The ends of the two pipes that \<^verbatim>\<open>make_kid\<close> creates for child \<open>i\<close>: \<^verbatim>\<open>pipe1\<close> carries the
  child's input, \<^verbatim>\<open>pipe2\<close> its output. A process holds an end once for each of its
  open descriptors on it.
\<close>

datatype pipe_end = P1_read nat | P1_write nat | P2_read nat | P2_write nat

text \<open>
  \<^verbatim>\<open>make_kid\<close> for child \<open>i\<close>, on the ends the parent holds at the call: the two calls of
  \<^verbatim>\<open>pipe\<close>; \<^verbatim>\<open>fork\<close>, which gives the child a copy of everything the parent holds; in
  the child the two calls of \<^verbatim>\<open>dup2\<close> and the four of \<^verbatim>\<open>close\<close>, on its own two pipes
  only; in the parent the two calls of \<^verbatim>\<open>close\<close>. The result is what the parent holds
  when \<^verbatim>\<open>make_kid\<close> returns and what the child holds when it calls \<^verbatim>\<open>be_childish\<close>.
\<close>

definition make_kid_fds :: "nat \<Rightarrow> pipe_end multiset \<Rightarrow> pipe_end multiset \<times> pipe_end multiset" where
  "make_kid_fds i held =
     (let forked = held + {#P1_read i, P1_write i#} + {#P2_read i, P2_write i#}
      in (forked - {#P1_read i#} - {#P2_write i#},
          forked + {#P1_read i#} + {#P2_write i#}
            - {#P1_read i#} - {#P1_write i#} - {#P2_read i#} - {#P2_write i#}))"

text \<open>The first loop of \<^verbatim>\<open>main\<close>, from child \<open>i\<close> on: what each child holds.\<close>

fun fork_kids :: "nat \<Rightarrow> nat \<Rightarrow> pipe_end multiset \<Rightarrow> pipe_end multiset list" where
  "fork_kids i 0 held = []"
| "fork_kids i (Suc n) held =
     (case make_kid_fds i held of
        (parent, child) \<Rightarrow> child # fork_kids (i + 1) n parent)"

definition kid_fds :: "nat \<Rightarrow> pipe_end multiset list" where
  "kid_fds nkids = fork_kids 0 nkids {#}"

lemma make_kid_fds_eq:
  "make_kid_fds i held = (held + {#P1_write i, P2_read i#}, held + {#P1_read i, P2_write i#})"
  by (simp add: make_kid_fds_def Let_def)

lemma length_fork_kids [simp]: "length (fork_kids i n held) = n"
  by (induction n arbitrary: i held) (simp_all add: make_kid_fds_eq)

lemma fork_kids_holds:
  "j < n \<Longrightarrow>
   P1_write k \<in># fork_kids i n held ! j \<longleftrightarrow> P1_write k \<in># held \<or> (i \<le> k \<and> k < i + j)"
proof (induction n arbitrary: i held j)
  case 0
  then show ?case by simp
next
  case (Suc n)
  show ?case
  proof (cases j)
    case 0
    then show ?thesis by (auto simp: make_kid_fds_eq)
  next
    case (Suc j')
    with Suc.prems have "j' < n" by simp
    from Suc.IH [OF this, of "i + 1" "held + {#P1_write i, P2_read i#}"] Suc
    show ?thesis by (auto simp: make_kid_fds_eq)
  qed
qed

lemma kid_fds_holds: "j < nkids \<Longrightarrow> P1_write i \<in># kid_fds nkids ! j \<longleftrightarrow> i < j"
  by (simp add: kid_fds_def fork_kids_holds)


subsection \<open>Workers and coordinator side by side\<close>

text \<open>
  What a worker is doing: reading its standard input up to end of file; then, its lines
  sorted, writing, with the bytes it has still to hand to the pipe; then gone, all its
  descriptors closed.
\<close>

datatype wphase = Reading | Writing string | Exited

text \<open>
  The processes once \<^verbatim>\<open>distribute\<close> has returned, so that the coordinator has closed its
  own descriptor on every worker's input: the phase of each worker; the bytes in the pipe
  from each worker, written and not yet read; how many workers the preload of \<^verbatim>\<open>merge\<close>
  has read; the coordinator's slots, of which \<open>fp_from\<close> here only tells whether the
  stream is still open, the unread bytes being in the pipe; and what the coordinator has
  written to its standard output.
\<close>

record net =
  phase :: "wphase list"
  pipe :: "string list"
  npre :: nat
  heads :: "slot list"
  written :: string

definition start :: "nat \<Rightarrow> net" where
  "start nkids =
     \<lparr>phase = replicate nkids Reading, pipe = replicate nkids [], npre = 0, heads = [],
      written = []\<rparr>"

text \<open>
  Worker \<open>i\<close> reads end of file once no process holds the write end of its input pipe:
  every worker that inherited that end is gone.
\<close>

definition sees_eof :: "nat \<Rightarrow> net \<Rightarrow> bool" where
  "sees_eof i s \<longleftrightarrow>
     (\<forall>j<length (phase s). P1_write i \<in># kid_fds (length (phase s)) ! j \<longrightarrow> phase s ! j = Exited)"

text \<open>
  \<^verbatim>\<open>fgets\<close> on the pipe from worker \<open>k\<close> returns once the pipe holds a whole line or as
  many bytes as the buffer takes, or the worker, the only holder of the write end, is
  gone; until then the coordinator waits.
\<close>

definition readable :: "nat \<Rightarrow> net \<Rightarrow> bool" where
  "readable k s \<longleftrightarrow>
     phase s ! k = Exited \<or> newline \<in> set (pipe s ! k) \<or> MAX_LINE - 1 \<le> length (pipe s ! k)"

definition unread :: "slot \<Rightarrow> string" where
  "unread sl = (case fp_from sl of None \<Rightarrow> [] | Some rest \<Rightarrow> rest)"

text \<open>
  One step of one process. \<open>cap\<close> is the number of bytes a pipe holds: a worker hands
  bytes to its pipe only while they fit. \<open>to_kids\<close> is what \<^verbatim>\<open>distribute\<close> wrote to
  each worker; no worker runs out of memory.
\<close>

inductive step :: "nat \<Rightarrow> string list \<Rightarrow> net \<Rightarrow> net \<Rightarrow> bool"
  for cap :: nat and to_kids :: "string list" where
  worker_eof:
    "i < length (phase s) \<Longrightarrow> phase s ! i = Reading \<Longrightarrow> sees_eof i s \<Longrightarrow>
     step cap to_kids s
       (s\<lparr>phase := (phase s)[i := Writing (fst (be_childish None (to_kids ! i)))]\<rparr>)"
| worker_write:
    "i < length (phase s) \<Longrightarrow> phase s ! i = Writing (chunk @ rest) \<Longrightarrow> chunk \<noteq> [] \<Longrightarrow>
     length (pipe s ! i) + length chunk \<le> cap \<Longrightarrow>
     step cap to_kids s
       (s\<lparr>phase := (phase s)[i := Writing rest], pipe := (pipe s)[i := pipe s ! i @ chunk]\<rparr>)"
| worker_exit:
    "i < length (phase s) \<Longrightarrow> phase s ! i = Writing [] \<Longrightarrow>
     step cap to_kids s (s\<lparr>phase := (phase s)[i := Exited]\<rparr>)"
| coord_preload:
    "npre s < length (phase s) \<Longrightarrow> readable (npre s) s \<Longrightarrow>
     read_line (Some (pipe s ! npre s)) MAX_LINE = Some sl \<Longrightarrow>
     step cap to_kids s
       (s\<lparr>heads := heads s @ [sl], pipe := (pipe s)[npre s := unread sl], npre := npre s + 1\<rparr>)"
| coord_merge:
    "npre s = length (phase s) \<Longrightarrow> not_all_done (heads s) \<Longrightarrow>
     min_search (heads s) = (k, Some min_str) \<Longrightarrow> readable k s \<Longrightarrow>
     read_line (Some (pipe s ! k)) MAX_LINE = Some sl \<Longrightarrow>
     step cap to_kids s
       (s\<lparr>written := written s @ c_str min_str, heads := (heads s)[k := sl],
          pipe := (pipe s)[k := unread sl]\<rparr>)"

text \<open>The states the processes can be in, from the return of \<^verbatim>\<open>distribute\<close> on.\<close>

inductive run_state :: "nat \<Rightarrow> string list \<Rightarrow> net \<Rightarrow> bool"
  for cap :: nat and to_kids :: "string list" where
  at_start: "run_state cap to_kids (start (length to_kids))"
| after_step: "run_state cap to_kids s \<Longrightarrow> step cap to_kids s s' \<Longrightarrow> run_state cap to_kids s'"

text \<open>
  What holds for ever when the output of worker \<open>j\<close>, not the first, is more than a
  pipe holds.
\<close>

definition waiting :: "nat \<Rightarrow> nat \<Rightarrow> string \<Rightarrow> nat \<Rightarrow> net \<Rightarrow> bool" where
  "waiting nkids j outj cap s \<longleftrightarrow>
     length (phase s) = nkids \<and> length (pipe s) = nkids \<and>
     npre s = 0 \<and> heads s = [] \<and> written s = [] \<and>
     (\<forall>i<j. phase s ! i = Reading \<and> pipe s ! i = []) \<and>
     (case phase s ! j of
        Reading \<Rightarrow> pipe s ! j = []
      | Writing rest \<Rightarrow> pipe s ! j @ rest = outj \<and> length (pipe s ! j) \<le> cap
      | Exited \<Rightarrow> False)"

lemma waiting_start: "0 < j \<Longrightarrow> j < nkids \<Longrightarrow> waiting nkids j outj cap (start nkids)"
  by (simp add: waiting_def start_def)

lemma waiting_step:
  assumes w: "waiting nkids j (fst (be_childish None (to_kids ! j))) cap s"
    and j: "0 < j" "j < nkids"
    and big: "cap < length (fst (be_childish None (to_kids ! j)))"
    and st: "step cap to_kids s s'"
  shows "waiting nkids j (fst (be_childish None (to_kids ! j))) cap s'"
  using st
proof cases
  case (worker_eof i)
  have "j \<le> i"
  proof (rule ccontr)
    assume "\<not> j \<le> i"
    then have "i < j" by simp
    with j w have "P1_write i \<in># kid_fds (length (phase s)) ! j"
      by (simp add: kid_fds_holds waiting_def)
    with worker_eof(4) j w have "phase s ! j = Exited"
      by (simp add: sees_eof_def waiting_def)
    with w show False by (simp add: waiting_def)
  qed
  with w worker_eof j show ?thesis
    by (auto simp: waiting_def nth_list_update split: wphase.splits)
next
  case (worker_write i chunk rest)
  with w have "j \<le> i"
    by (metis leI waiting_def wphase.distinct(1))
  with w worker_write j show ?thesis
    by (auto simp: waiting_def nth_list_update split: wphase.splits)
next
  case (worker_exit i)
  with w have "j \<le> i"
    by (metis leI waiting_def wphase.distinct(1))
  moreover have "i \<noteq> j"
  proof
    assume "i = j"
    with w worker_exit have "pipe s ! j @ [] = fst (be_childish None (to_kids ! j))"
      and "length (pipe s ! j) \<le> cap"
      by (simp_all add: waiting_def del: append_Nil2)
    with big show False by simp
  qed
  ultimately show ?thesis
    using w worker_exit j by (auto simp: waiting_def nth_list_update split: wphase.splits)
next
  case (coord_preload sl)
  from w j have "npre s = 0" "phase s ! 0 = Reading" "pipe s ! 0 = []"
    by (simp_all add: waiting_def)
  with coord_preload(3) show ?thesis
    by (simp add: readable_def MAX_LINE_def)
next
  case (coord_merge k min_str sl)
  with w j show ?thesis by (simp add: waiting_def)
qed

lemma run_state_waiting:
  assumes "0 < j" "j < length to_kids"
    and "cap < length (fst (be_childish None (to_kids ! j)))"
    and "run_state cap to_kids s"
  shows "waiting (length to_kids) j (fst (be_childish None (to_kids ! j))) cap s"
  using assms(4)
proof (induction rule: run_state.induct)
  case at_start
  from assms(1,2) show ?case by (rule waiting_start)
next
  case (after_step s s')
  from after_step.IH assms(1,2,3) after_step.hyps(2) show ?case
    by (rule waiting_step)
qed

lemma distribute_length: "distribute nkids inp = Some to_kids \<Longrightarrow> length to_kids = nkids"
  by (auto simp: distribute_def)


text \<open>
  Claim C1 fails on the code. A worker forked later inherits the write end of the input
  pipe of every worker forked before it, and \<^verbatim>\<open>make_kid\<close> closes only the child's own
  pipes; so a worker reads end of file only when all later workers are gone. When the
  sorted output of some worker other than the first is more than a pipe holds, that
  worker never gets to write all of it, the first worker never reads end of file, and the
  coordinator, whose first read is from the first worker, waits for ever: in every state
  the processes reach it has written nothing.
\<close>

theorem pipeline_blocks:
  assumes "distribute nkids inp = Some to_kids"
    and "0 < j" and "j < nkids"
    and "cap < length (fst (be_childish None (to_kids ! j)))"
    and "run_state cap to_kids s"
  shows "written s = [] \<and> npre s = 0 \<and> phase s ! 0 = Reading \<and> phase s ! j \<noteq> Exited"
proof -
  from assms(1) have len: "length to_kids = nkids"
    by (rule distribute_length)
  with assms(2-5) have "waiting nkids j (fst (be_childish None (to_kids ! j))) cap s"
    using run_state_waiting [of j to_kids cap s] by simp
  with assms(2) show ?thesis
    by (auto simp: waiting_def split: wphase.splits)
qed

subsection \<open>An input on which the processes block\<close>

lemma length_filter_eq_upt: "length (filter (\<lambda>k. k = j) [0..<n]) = (if j < n then 1 else 0)"
  by (induction n) auto

lemma length_filter_mod_block:
  assumes "j < n"
  shows "length (filter (\<lambda>k. k mod n = j) [n * m..<n * m + n]) = 1"
proof -
  have "[n * m..<n * m + n] = map (\<lambda>k. k + n * m) [0..<n]"
    by (simp add: map_add_upt add.commute)
  then have "filter (\<lambda>k. k mod n = j) [n * m..<n * m + n] =
      map (\<lambda>k. k + n * m) (filter (\<lambda>k. (k + n * m) mod n = j) [0..<n])"
    by (simp add: filter_map comp_def)
  moreover have "filter (\<lambda>k. (k + n * m) mod n = j) [0..<n] = filter (\<lambda>k. k = j) [0..<n]"
    by (rule filter_cong) auto
  ultimately show ?thesis
    using assms by (simp add: length_filter_eq_upt)
qed

lemma length_filter_mod:
  assumes "j < n"
  shows "length (filter (\<lambda>k. k mod n = j) [0..<n * m]) = m"
proof (induction m)
  case 0
  then show ?case by simp
next
  case (Suc m)
  have e: "n * Suc m = n * m + n" by simp
  have "[0..<n * m + n] = [0..<n * m] @ [n * m..<n * m + n]"
    by (rule upt_add_eq_append) simp
  then have "filter (\<lambda>k. k mod n = j) [0..<n * Suc m] =
      filter (\<lambda>k. k mod n = j) [0..<n * m] @ filter (\<lambda>k. k mod n = j) [n * m..<n * m + n]"
    by (simp only: e filter_append)
  then have "length (filter (\<lambda>k. k mod n = j) [0..<n * Suc m]) =
      length (filter (\<lambda>k. k mod n = j) [0..<n * m]) +
      length (filter (\<lambda>k. k mod n = j) [n * m..<n * m + n])"
    by (simp only: length_append)
  with Suc length_filter_mod_block [OF assms, of m] show ?case
    by (simp only:)
qed

lemma distribute_replicate:
  assumes n: "0 < n" and wf: "wf_line l"
  shows "distribute n (concat (replicate (n * m) l)) = Some (replicate n (concat (replicate m l)))"
proof -
  have fa: "fgets_all (concat (replicate (n * m) l)) = replicate (n * m) l"
    using wf by (simp add: fgets_all_wf_lines)
  have sh: "map (\<lambda>k. c_str (replicate (n * m) l ! k)) (filter (\<lambda>k. k mod n = i) [0..<n * m]) =
      replicate m l" if "i < n" for i
  proof -
    have "map (\<lambda>k. c_str (replicate (n * m) l ! k)) (filter (\<lambda>k. k mod n = i) [0..<n * m]) =
        map (\<lambda>k. l) (filter (\<lambda>k. k mod n = i) [0..<n * m])"
      using wf by (intro map_cong) (auto simp: c_str_id wf_line_no_NUL)
    then show ?thesis
      using that by (simp add: map_replicate_const length_filter_mod)
  qed
  have "map (\<lambda>i. concat (map (\<lambda>k. c_str (replicate (n * m) l ! k))
            (filter (\<lambda>k. k mod n = i) [0..<n * m]))) [0..<n] =
      map (\<lambda>i. concat (replicate m l)) [0..<n]"
    by (rule map_cong) (simp_all add: sh)
  then show ?thesis
    using distribute_loop_cursor [OF n, of "concat (replicate (n * m) l)"]
    by (simp add: distribute_def share_round_robin fa map_replicate_trivial)
qed

lemma be_childish_replicate:
  assumes "wf_line l"
  shows "be_childish None (concat (replicate m l)) = (concat (replicate m l), 0)"
proof -
  have "sort (replicate m l) = replicate m l"
    by (rule properties_for_sort) simp_all
  with assms show ?thesis
    by (simp add: be_childish_wf_lines)
qed

text \<open>
  The input: the line \<open>x\<close> many times over. The state: worker 4 has been handed 40000
  of these lines, has sorted them, and has written as many bytes as a pipe of 65536 bytes
  holds; the other workers are still reading.
\<close>

definition many_lines :: "nat \<Rightarrow> string" where
  "many_lines m = concat (replicate m ''x\<newline>'')"

definition blocked :: net where
  "blocked =
     \<lparr>phase = (replicate 5 Reading)[4 := Writing (many_lines 7232)],
      pipe = (replicate 5 [])[4 := many_lines 32768],
      npre = 0, heads = [], written = []\<rparr>"

lemma length_many_lines: "length (many_lines m) = 2 * m"
  by (induction m) (simp_all add: many_lines_def)

lemma many_lines_eq_Nil: "many_lines m = [] \<longleftrightarrow> m = 0"
  using length_many_lines [of m] by (cases "many_lines m") auto

lemma many_lines_add: "many_lines (a + b) = many_lines a @ many_lines b"
  by (simp add: many_lines_def replicate_add)

lemma wf_line_x: "wf_line ''x\<newline>''"
  by (simp add: wf_line_def newline_def NUL_def MAX_LINE_def)

lemma be_childish_many_lines: "be_childish None (many_lines m) = (many_lines m, 0)"
  by (simp add: many_lines_def be_childish_replicate wf_line_x)

lemma distribute_many_lines:
  "distribute NUM_KIDS (many_lines 200000) = Some (replicate 5 (many_lines 40000))"
  using distribute_replicate [of 5 "''x\<newline>''" 40000]
  by (simp add: wf_line_x many_lines_def NUM_KIDS_def)

lemma run_state_blocked: "run_state 65536 (replicate 5 (many_lines 40000)) blocked"
proof -
  let ?tk = "replicate 5 (many_lines 40000)"
  let ?s0 = "start (length ?tk)"
  let ?s1 = "?s0\<lparr>phase := (phase ?s0)[4 := Writing (fst (be_childish None (?tk ! 4)))]\<rparr>"
  let ?s2 = "?s1\<lparr>phase := (phase ?s1)[4 := Writing (many_lines 7232)],
               pipe := (pipe ?s1)[4 := pipe ?s1 ! 4 @ many_lines 32768]\<rparr>"
  have r0: "run_state 65536 ?tk ?s0"
    by (rule run_state.at_start)
  have "sees_eof 4 ?s0"
    by (simp add: sees_eof_def start_def kid_fds_holds)
  then have "step 65536 ?tk ?s0 ?s1"
    by (intro step.worker_eof) (simp_all add: start_def)
  with r0 have r1: "run_state 65536 ?tk ?s1"
    by (rule run_state.after_step)
  have "phase ?s1 ! 4 = Writing (many_lines 40000)"
    by (simp add: start_def be_childish_many_lines)
  moreover have "many_lines 40000 = many_lines 32768 @ many_lines 7232"
    using many_lines_add [of 32768 7232] by simp
  ultimately have "phase ?s1 ! 4 = Writing (many_lines 32768 @ many_lines 7232)"
    by (simp only:)
  then have "step 65536 ?tk ?s1 ?s2"
    by (rule step.worker_write [rotated])
      (simp_all add: start_def length_many_lines many_lines_eq_Nil)
  with r1 have "run_state 65536 ?tk ?s2"
    by (rule run_state.after_step)
  moreover have "?s2 = blocked"
    by (simp add: start_def blocked_def)
  ultimately show ?thesis by simp
qed

lemma blocked_stuck: "\<not> step 65536 (replicate 5 (many_lines 40000)) blocked s'"
proof
  assume "step 65536 (replicate 5 (many_lines 40000)) blocked s'"
  then show False
  proof cases
    case (worker_eof i)
    then have i: "i < 4"
      by (auto simp: blocked_def nth_list_update split: if_splits)
    from worker_eof(4)
    have "\<forall>j<length (phase blocked).
        P1_write i \<in># kid_fds (length (phase blocked)) ! j \<longrightarrow> phase blocked ! j = Exited"
      by (simp add: sees_eof_def)
    moreover have "4 < length (phase blocked)"
      by (simp add: blocked_def)
    ultimately have "P1_write i \<in># kid_fds (length (phase blocked)) ! 4 \<longrightarrow>
        phase blocked ! 4 = Exited"
      by blast
    with i show False
      by (simp add: kid_fds_holds blocked_def)
  next
    case (worker_write i chunk rest)
    then have "i = 4"
      by (auto simp: blocked_def nth_list_update split: if_splits)
    with worker_write(4,5) show False
      by (simp add: blocked_def length_many_lines)
  next
    case (worker_exit i)
    then have "many_lines 7232 = []"
      by (auto simp: blocked_def nth_list_update split: if_splits)
    then have "length (many_lines 7232) = 0" by simp
    then show False by (simp add: length_many_lines)
  next
    case (coord_preload sl)
    then show False
      by (simp add: blocked_def readable_def MAX_LINE_def)
  next
    case (coord_merge k min_str sl)
    then show False by (simp add: blocked_def)
  qed
qed

text \<open>
  The theorem at the standard input of 200000 lines \<open>x\<close> with pipes of 65536 bytes: the
  processes reach the state above, in which nothing has been written and from which no
  process can take a step.
\<close>

theorem pipeline_blocks_witness:
  "distribute NUM_KIDS (many_lines 200000) = Some (replicate 5 (many_lines 40000)) \<and>
   run_state 65536 (replicate 5 (many_lines 40000)) blocked \<and>
   written blocked = [] \<and> npre blocked = 0 \<and> phase blocked ! 0 = Reading \<and>
   phase blocked ! 4 \<noteq> Exited \<and>
   (\<forall>s'. \<not> step 65536 (replicate 5 (many_lines 40000)) blocked s')"
proof -
  have big: "65536 < length (fst (be_childish None (replicate 5 (many_lines 40000) ! 4)))"
    by (simp add: be_childish_many_lines length_many_lines)
  have "(0::nat) < 4" and "4 < NUM_KIDS"
    by (simp_all add: NUM_KIDS_def)
  from pipeline_blocks [OF distribute_many_lines this big run_state_blocked]
    distribute_many_lines run_state_blocked blocked_stuck
  show ?thesis by simp
qed

section \<open>The rational-number library\<close>

text \<open>
  Values of type \<^verbatim>\<open>int\<close> are the integers from \<open>INT_MIN\<close> to \<open>INT_MAX\<close>. A function that
  returns a value returns \<open>Some\<close> of it; \<open>None\<close> stands for a run without a value: a failed
  \<^verbatim>\<open>assert\<close>, a division by zero, or a signed overflow in \<^verbatim>\<open>int\<close> arithmetic, which is
  undefined in C.
\<close>

definition INT_MAX :: int where
  "INT_MAX = 2147483647"

definition INT_MIN :: int where
  "INT_MIN = - 2147483648"

definition in_int :: "int \<Rightarrow> bool" where
  "in_int x \<longleftrightarrow> INT_MIN \<le> x \<and> x \<le> INT_MAX"

text \<open>The result of an operation of \<^verbatim>\<open>int\<close> arithmetic whose mathematical value is \<open>x\<close>.\<close>

definition chk :: "int \<Rightarrow> int option" where
  "chk x = (if in_int x then Some x else None)"

text \<open>Division and remainder as C defines them: the quotient is truncated towards zero.\<close>

definition c_div :: "int \<Rightarrow> int \<Rightarrow> int option" where
  "c_div a b = (if b = 0 then None else Some (sgn a * sgn b * (\<bar>a\<bar> div \<bar>b\<bar>)))"

definition c_rem :: "int \<Rightarrow> int \<Rightarrow> int option" where
  "c_rem a b = (if b = 0 then None else Some (sgn a * (\<bar>a\<bar> mod \<bar>b\<bar>)))"

record RationalInt =
  numerator :: int
  denominator :: int

definition iabs :: "int \<Rightarrow> int option" where
  "iabs x = (if x < 0 then chk (- x) else Some x)"

text \<open>
  Modelled from the spec: \<^verbatim>\<open>gcd\<close> is declared in \<^verbatim>\<open>gcd.h\<close>, which is not among the sources.
  The library reduces to lowest terms with it and asserts that it yields 1 on a stored
  value, so it is the greatest common divisor; it is only called on results of
  \<^verbatim>\<open>iabs\<close>.
\<close>

definition gcd_int :: "int \<Rightarrow> int \<Rightarrow> int" where
  "gcd_int x y = gcd x y"

text \<open>The assertions of \<^verbatim>\<open>ri_chk\<close>: the storage rules of the library.\<close>

definition ri_chk :: "RationalInt \<Rightarrow> bool" where
  "ri_chk val \<longleftrightarrow>
     denominator val \<noteq> 0 \<and> denominator val \<noteq> INT_MIN \<and>
     0 \<le> numerator val \<and>
     (numerator val = 0 \<or>
      (case (iabs (numerator val), iabs (denominator val)) of
         (Some a, Some b) \<Rightarrow> gcd_int a b = 1
       | _ \<Rightarrow> False))"

text \<open>The loop of \<^verbatim>\<open>gcd_ll\<close>, on values of type \<^verbatim>\<open>long long\<close>.\<close>

function gcd_ll_loop :: "int \<Rightarrow> int \<Rightarrow> int option" where
  "gcd_ll_loop x y =
     (case c_rem x y of
        None \<Rightarrow> None
      | Some r \<Rightarrow> if r \<noteq> 0 then gcd_ll_loop y r else Some y)"
  by pat_completeness auto
termination
proof (relation "measure (\<lambda>(x, y). nat \<bar>y\<bar>)")
  show "wf (measure (\<lambda>(x, y). nat \<bar>y\<bar>))" by simp
next
  fix x y r :: int
  assume "c_rem x y = Some r" and "r \<noteq> 0"
  then have y: "y \<noteq> 0" and r: "r = sgn x * (\<bar>x\<bar> mod \<bar>y\<bar>)"
    by (auto simp: c_rem_def split: if_splits)
  from y have "\<bar>x\<bar> mod \<bar>y\<bar> < \<bar>y\<bar>" by simp
  moreover have "0 \<le> \<bar>x\<bar> mod \<bar>y\<bar>" using y by simp
  ultimately have "\<bar>r\<bar> < \<bar>y\<bar>"
    unfolding r using y by (simp add: abs_mult abs_sgn_eq)
  then show "((y, r), (x, y)) \<in> measure (\<lambda>(x, y). nat \<bar>y\<bar>)" by simp
qed

declare gcd_ll_loop.simps [simp del]

definition gcd_ll :: "int \<Rightarrow> int \<Rightarrow> int option" where
  "gcd_ll x y = (if x = 0 \<or> y = 0 then Some 0 else gcd_ll_loop x y)"

definition ri_new :: "int \<Rightarrow> int \<Rightarrow> RationalInt option" where
  "ri_new n d =
     (if d = 0 then None
      else if n = 0 then Some \<lparr>numerator = 0, denominator = 1\<rparr>
      else do {
        let sign = 1 - 2 * (if (n < 0 \<and> 0 < d) \<or> (0 < n \<and> d < 0) then 1 else 0);
        a \<leftarrow> iabs n;
        b \<leftarrow> iabs d;
        let dv = gcd_int a b;
        if dv = 0 then None
        else do {
          num \<leftarrow> c_div a dv;
          sb \<leftarrow> chk (sign * b);
          den \<leftarrow> c_div sb dv;
          Some \<lparr>numerator = num, denominator = den\<rparr>
        }
      })"

text \<open>
  In the four operations the products and sums are \<^verbatim>\<open>int\<close> arithmetic, widened to
  \<^verbatim>\<open>long long\<close> afterwards; the divisions are on \<^verbatim>\<open>long long\<close> values that fit an \<^verbatim>\<open>int\<close>.
\<close>

definition ri_add :: "RationalInt \<Rightarrow> RationalInt \<Rightarrow> RationalInt option" where
  "ri_add lhs rhs = do {
     p \<leftarrow> chk (numerator lhs * denominator rhs);
     q \<leftarrow> chk (numerator rhs * denominator lhs);
     rn \<leftarrow> chk (p + q);
     if rn = 0 then ri_new 0 1
     else do {
       rd \<leftarrow> chk (denominator lhs * denominator rhs);
       dv \<leftarrow> gcd_ll rn rd;
       nr \<leftarrow> c_div rn dv;
       dr \<leftarrow> c_div rd dv;
       if \<not> (nr \<le> INT_MAX \<and> INT_MIN \<le> nr) then None
       else if \<not> (dr \<le> INT_MAX \<and> INT_MIN \<le> dr) then None
       else ri_new nr dr
     }
   }"

definition ri_sub :: "RationalInt \<Rightarrow> RationalInt \<Rightarrow> RationalInt option" where
  "ri_sub lhs rhs = do {
     p \<leftarrow> chk (numerator lhs * denominator rhs);
     q \<leftarrow> chk (numerator rhs * denominator lhs);
     rn \<leftarrow> chk (p - q);
     if rn = 0 then ri_new 0 1
     else do {
       rd \<leftarrow> chk (denominator lhs * denominator rhs);
       dv \<leftarrow> gcd_ll rn rd;
       nr \<leftarrow> c_div rn dv;
       dr \<leftarrow> c_div rd dv;
       if \<not> (nr \<le> INT_MAX \<and> INT_MIN \<le> nr) then None
       else if \<not> (dr \<le> INT_MAX \<and> INT_MIN \<le> dr) then None
       else ri_new nr dr
     }
   }"

definition ri_mul :: "RationalInt \<Rightarrow> RationalInt \<Rightarrow> RationalInt option" where
  "ri_mul lhs rhs = do {
     rn \<leftarrow> chk (numerator lhs * numerator rhs);
     if rn = 0 then ri_new 0 1
     else do {
       rd \<leftarrow> chk (denominator lhs * denominator rhs);
       dv \<leftarrow> gcd_ll rn rd;
       nr \<leftarrow> c_div rn dv;
       dr \<leftarrow> c_div rd dv;
       if \<not> (nr \<le> INT_MAX \<and> INT_MIN \<le> nr) then None
       else if \<not> (dr \<le> INT_MAX \<and> INT_MIN \<le> dr) then None
       else ri_new nr dr
     }
   }"

definition ri_div :: "RationalInt \<Rightarrow> RationalInt \<Rightarrow> RationalInt option" where
  "ri_div lhs rhs =
     (if numerator rhs = 0 then None
      else if numerator lhs = 0 then ri_new 0 1
      else do {
        rn \<leftarrow> chk (numerator lhs * denominator rhs);
        rd \<leftarrow> chk (denominator lhs * numerator rhs);
        dv \<leftarrow> gcd_ll rn rd;
        nr \<leftarrow> c_div rn dv;
        dr \<leftarrow> c_div rd dv;
        if \<not> (nr \<le> INT_MAX \<and> INT_MIN \<le> nr) then None
        else if \<not> (dr \<le> INT_MAX \<and> INT_MIN \<le> dr) then None
        else ri_new nr dr
      })"


lemma ri_new_props:
  assumes "in_int d" and "ri_new n d = Some r"
  shows "ri_chk r \<and> (n \<noteq> 0 \<longrightarrow> sgn (denominator r) = sgn n * sgn d)"
proof (cases "n = 0")
  case True
  with assms show ?thesis
    by (auto simp: ri_new_def ri_chk_def INT_MIN_def split: if_splits)
next
  case False
  define sign :: int where "sign = 1 - 2 * (if (n < 0 \<and> 0 < d) \<or> (0 < n \<and> d < 0) then 1 else 0)"
  from assms(2) False have d: "d \<noteq> 0"
    by (auto simp: ri_new_def split: if_splits)
  from assms(2) False d obtain a b num sb den where
    a: "iabs n = Some a" and b: "iabs d = Some b" and dv: "gcd_int a b \<noteq> 0"
    and num: "c_div a (gcd_int a b) = Some num" and sb: "chk (sign * b) = Some sb"
    and den: "c_div sb (gcd_int a b) = Some den"
    and r: "r = \<lparr>numerator = num, denominator = den\<rparr>"
    by (auto simp: ri_new_def sign_def Let_def split: if_splits Option.bind_splits)
  from a False have a': "a = \<bar>n\<bar>" "0 < a"
    by (auto simp: iabs_def chk_def split: if_splits)
  from b d assms(1) have b': "b = \<bar>d\<bar>" "0 < b" "b \<le> INT_MAX"
    by (auto simp: iabs_def chk_def in_int_def split: if_splits)
  define g where "g = gcd a b"
  have g: "0 < g" "g dvd a" "g dvd b"
    using a'(2) by (simp_all add: g_def)
  have sign: "sign = 1 \<or> sign = - 1" by (simp add: sign_def)
  from num g(1) a'(2) have num': "num = a div g"
    by (simp add: c_div_def gcd_int_def g_def)
  from sb have sb': "sb = sign * b" by (simp add: chk_def split: if_splits)
  from den g(1) sign b'(2) have den': "den = sign * (b div g)"
    by (auto simp: c_div_def gcd_int_def g_def [symmetric] sb' abs_mult sgn_mult)
  have "g \<le> a" "g \<le> b"
    using g a'(2) b'(2) by (simp_all add: zdvd_imp_le)
  then have pos: "0 < a div g" "0 < b div g"
    using g(1) by (simp_all add: pos_imp_zdiv_pos_iff)
  have "b div g \<le> b"
    using zdiv_mono2 [of b 1 g] g(1) b'(2) by simp
  with b'(3) have le: "b div g \<le> INT_MAX" by simp
  have cop: "gcd (a div g) (b div g) = 1"
    unfolding g_def using a'(2) by (simp add: div_gcd_coprime coprime_imp_gcd_eq_1)
  have c1: "den \<noteq> 0" using sign pos den' by auto
  have c2: "den \<noteq> INT_MIN" using sign pos le den' by (auto simp: INT_MIN_def INT_MAX_def)
  have c3: "0 \<le> num" using pos num' by simp
  have c4: "iabs num = Some (a div g)" using pos num' by (simp add: iabs_def)
  have c5: "iabs den = Some (b div g)"
    using sign pos le den' by (auto simp: iabs_def chk_def in_int_def INT_MIN_def INT_MAX_def)
  have "sgn den = sign" using sign pos den' by (auto simp: sgn_mult)
  moreover have "sign = sgn n * sgn d" using False d by (auto simp: sign_def sgn_if)
  ultimately have c6: "sgn (denominator r) = sgn n * sgn d" by (simp add: r)
  have "ri_chk r"
    unfolding ri_chk_def r using c1 c2 c3 c4 c5 cop num' by (simp add: gcd_int_def)
  with c6 show ?thesis by simp
qed

lemma ri_new_chk: "in_int d \<Longrightarrow> ri_new n d = Some r \<Longrightarrow> ri_chk r"
  using ri_new_props [of d n r] by simp

lemma ri_zero_chk: "ri_new 0 1 = Some r \<Longrightarrow> ri_chk r"
  by (rule ri_new_chk [of 1 0]) (simp_all add: in_int_def INT_MIN_def INT_MAX_def)

lemma ri_add_chk: "ri_add lhs rhs = Some r \<Longrightarrow> ri_chk r"
  unfolding ri_add_def
  by (auto simp: in_int_def split: Option.bind_splits if_splits intro: ri_new_chk ri_zero_chk)

lemma ri_sub_chk: "ri_sub lhs rhs = Some r \<Longrightarrow> ri_chk r"
  unfolding ri_sub_def
  by (auto simp: in_int_def split: Option.bind_splits if_splits intro: ri_new_chk ri_zero_chk)

lemma ri_mul_chk: "ri_mul lhs rhs = Some r \<Longrightarrow> ri_chk r"
  unfolding ri_mul_def
  by (auto simp: in_int_def split: Option.bind_splits if_splits intro: ri_new_chk ri_zero_chk)

lemma ri_div_chk: "ri_div lhs rhs = Some r \<Longrightarrow> ri_chk r"
  unfolding ri_div_def
  by (auto simp: in_int_def split: Option.bind_splits if_splits intro: ri_new_chk ri_zero_chk)


text \<open>
  The invariants in the words of the specification: the denominator is not zero, the
  numerator is not negative, and the two have no common divisor unless the numerator is 0.
\<close>

definition lowest_terms :: "RationalInt \<Rightarrow> bool" where
  "lowest_terms val \<longleftrightarrow>
     denominator val \<noteq> 0 \<and> 0 \<le> numerator val \<and>
     (numerator val = 0 \<or> gcd (numerator val) (denominator val) = 1)"

lemma ri_chk_lowest_terms:
  assumes "ri_chk val"
  shows "lowest_terms val"
proof (cases "numerator val = 0")
  case True
  with assms show ?thesis by (simp add: ri_chk_def lowest_terms_def)
next
  case False
  with assms obtain a b where a: "iabs (numerator val) = Some a"
    and b: "iabs (denominator val) = Some b" and g: "gcd a b = 1"
    by (auto simp: ri_chk_def gcd_int_def split: option.splits)
  from a b have "a = \<bar>numerator val\<bar>" "b = \<bar>denominator val\<bar>"
    by (auto simp: iabs_def chk_def split: if_splits)
  with g have "gcd (numerator val) (denominator val) = 1" by simp
  with assms show ?thesis by (simp add: ri_chk_def lowest_terms_def)
qed

text \<open>
  Claim C9. Every value that \<^verbatim>\<open>ri_new\<close>, \<^verbatim>\<open>ri_add\<close>, \<^verbatim>\<open>ri_sub\<close>, \<^verbatim>\<open>ri_mul\<close> or \<^verbatim>\<open>ri_div\<close>
  returns passes the assertions of \<^verbatim>\<open>ri_chk\<close>: its denominator is not zero, its numerator
  is not negative, and the two are in lowest terms unless the numerator is 0. The sign of
  a value made by \<^verbatim>\<open>ri_new\<close> from a numerator other than 0 is the sign of its denominator.
\<close>

theorem rational_normalised:
  "(in_int n \<and> in_int d \<and> ri_new n d = Some r \<longrightarrow>
      ri_chk r \<and> lowest_terms r \<and> (n \<noteq> 0 \<longrightarrow> sgn (denominator r) = sgn n * sgn d)) \<and>
   (ri_add lhs rhs = Some r \<longrightarrow> ri_chk r \<and> lowest_terms r) \<and>
   (ri_sub lhs rhs = Some r \<longrightarrow> ri_chk r \<and> lowest_terms r) \<and>
   (ri_mul lhs rhs = Some r \<longrightarrow> ri_chk r \<and> lowest_terms r) \<and>
   (ri_div lhs rhs = Some r \<longrightarrow> ri_chk r \<and> lowest_terms r)"
  using ri_new_props [of d n r] ri_add_chk [of lhs rhs r] ri_sub_chk [of lhs rhs r]
    ri_mul_chk [of lhs rhs r] ri_div_chk [of lhs rhs r] ri_chk_lowest_terms [of r]
  by blast

text \<open>
  The theorem at a case of the library's own test table for each function: \<open>ri_new(-6, 8)\<close>;
  \<open>-14/9\<close> plus \<open>-12/7\<close>; \<open>23/31\<close> minus \<open>37/19\<close>; \<open>-14/9\<close> times \<open>12/7\<close>; and
  \<open>-14/9\<close> divided by \<open>-12/7\<close>.
\<close>

theorem rational_normalised_witness:
  "ri_new (- 6) 8 = Some \<lparr>numerator = 3, denominator = - 4\<rparr> \<and>
   ri_chk \<lparr>numerator = 3, denominator = - 4\<rparr> \<and>
   lowest_terms \<lparr>numerator = 3, denominator = - 4\<rparr> \<and>
   ri_add \<lparr>numerator = 14, denominator = - 9\<rparr> \<lparr>numerator = 12, denominator = - 7\<rparr> =
     Some \<lparr>numerator = 206, denominator = - 63\<rparr> \<and>
   ri_chk \<lparr>numerator = 206, denominator = - 63\<rparr> \<and>
   ri_sub \<lparr>numerator = 23, denominator = 31\<rparr> \<lparr>numerator = 37, denominator = 19\<rparr> =
     Some \<lparr>numerator = 710, denominator = - 589\<rparr> \<and>
   ri_chk \<lparr>numerator = 710, denominator = - 589\<rparr> \<and>
   ri_mul \<lparr>numerator = 14, denominator = - 9\<rparr> \<lparr>numerator = 12, denominator = 7\<rparr> =
     Some \<lparr>numerator = 8, denominator = - 3\<rparr> \<and>
   ri_chk \<lparr>numerator = 8, denominator = - 3\<rparr> \<and>
   ri_div \<lparr>numerator = 14, denominator = - 9\<rparr> \<lparr>numerator = 12, denominator = - 7\<rparr> =
     Some \<lparr>numerator = 49, denominator = 54\<rparr> \<and>
   ri_chk \<lparr>numerator = 49, denominator = 54\<rparr>"
proof -
  have i: "in_int (- 6)" "in_int 8"
    by (simp_all add: in_int_def INT_MIN_def INT_MAX_def)
  have n: "ri_new (- 6) 8 = Some \<lparr>numerator = 3, denominator = - 4\<rparr>"
    by code_simp
  have a: "ri_add \<lparr>numerator = 14, denominator = - 9\<rparr> \<lparr>numerator = 12, denominator = - 7\<rparr> =
      Some \<lparr>numerator = 206, denominator = - 63\<rparr>"
    by code_simp
  have s: "ri_sub \<lparr>numerator = 23, denominator = 31\<rparr> \<lparr>numerator = 37, denominator = 19\<rparr> =
      Some \<lparr>numerator = 710, denominator = - 589\<rparr>"
    by code_simp
  have m: "ri_mul \<lparr>numerator = 14, denominator = - 9\<rparr> \<lparr>numerator = 12, denominator = 7\<rparr> =
      Some \<lparr>numerator = 8, denominator = - 3\<rparr>"
    by code_simp
  have d: "ri_div \<lparr>numerator = 14, denominator = - 9\<rparr> \<lparr>numerator = 12, denominator = - 7\<rparr> =
      Some \<lparr>numerator = 49, denominator = 54\<rparr>"
    by code_simp
  from rational_normalised [of "- 6" 8 "\<lparr>numerator = 3, denominator = - 4\<rparr>"] i n
  have c1: "ri_chk \<lparr>numerator = 3, denominator = - 4\<rparr> \<and> lowest_terms \<lparr>numerator = 3, denominator = - 4\<rparr>"
    by simp
  from rational_normalised [of 0 1 "\<lparr>numerator = 206, denominator = - 63\<rparr>"
      "\<lparr>numerator = 14, denominator = - 9\<rparr>" "\<lparr>numerator = 12, denominator = - 7\<rparr>"] a
  have c2: "ri_chk \<lparr>numerator = 206, denominator = - 63\<rparr>"
    by simp
  from rational_normalised [of 0 1 "\<lparr>numerator = 710, denominator = - 589\<rparr>"
      "\<lparr>numerator = 23, denominator = 31\<rparr>" "\<lparr>numerator = 37, denominator = 19\<rparr>"] s
  have c3: "ri_chk \<lparr>numerator = 710, denominator = - 589\<rparr>"
    by simp
  from rational_normalised [of 0 1 "\<lparr>numerator = 8, denominator = - 3\<rparr>"
      "\<lparr>numerator = 14, denominator = - 9\<rparr>" "\<lparr>numerator = 12, denominator = 7\<rparr>"] m
  have c4: "ri_chk \<lparr>numerator = 8, denominator = - 3\<rparr>"
    by simp
  from rational_normalised [of 0 1 "\<lparr>numerator = 49, denominator = 54\<rparr>"
      "\<lparr>numerator = 14, denominator = - 9\<rparr>" "\<lparr>numerator = 12, denominator = - 7\<rparr>"] d
  have c5: "ri_chk \<lparr>numerator = 49, denominator = 54\<rparr>"
    by simp
  from n a s m d c1 c2 c3 c4 c5 show ?thesis by simp
qed

end
